theory Spec2Isabelle
  imports Main "HOL-Library.Word"
begin

section \<open>The buffer node (collaborator of the queue)\<close>

text \<open>
  \<^verbatim>\<open>folly/io/IOBufQueue.cpp\<close> is the only translation unit at hand. The class
  \<^verbatim>\<open>IOBuf\<close> and the inline members of \<^verbatim>\<open>IOBufQueue.h\<close> are used by it but are not
  part of it; they are modelled from section 3, 4.3 and 6 of the specification and each
  such definition says so.

  A node owns a storage area of \<open>capacity\<close> bytes; its data region starts \<open>dataOff\<close> bytes
  into the storage (the headroom) and is \<open>len\<close> bytes long; what follows is the
  tailroom. A chain of nodes (the circular list hanging off \<^verbatim>\<open>head_\<close>) is a list: the
  empty list is the null pointer, \<open>hd\<close> is \<^verbatim>\<open>head_\<close> and \<open>last\<close> is
  \<^verbatim>\<open>head_->prev()\<close>.
\<close>

type_synonym byte = "8 word"

record IOBuf =
  storage :: "byte list"
  dataOff :: nat
  len :: nat
  sharedOne :: bool

text \<open>Modelled from the spec: the Buffer collaborator contract of section 6
  (\<^verbatim>\<open>length\<close>, \<^verbatim>\<open>capacity\<close>, \<^verbatim>\<open>headroom\<close>, \<^verbatim>\<open>tailroom\<close>, \<^verbatim>\<open>data\<close>,
  \<^verbatim>\<open>isShared\<close>); \<^verbatim>\<open>IOBuf.h\<close> is not among the sources.\<close>

definition IOBuf_length :: "IOBuf \<Rightarrow> nat" where
  "IOBuf_length b = len b"

definition capacity :: "IOBuf \<Rightarrow> nat" where
  "capacity b = length (storage b)"

definition IOBuf_headroom :: "IOBuf \<Rightarrow> nat" where
  "IOBuf_headroom b = dataOff b"

definition writableTail :: "IOBuf \<Rightarrow> nat" where
  "writableTail b = dataOff b + len b"

definition IOBuf_tailroom :: "IOBuf \<Rightarrow> nat" where
  "IOBuf_tailroom b = capacity b - writableTail b"

definition data :: "IOBuf \<Rightarrow> byte list" where
  "data b = take (len b) (drop (dataOff b) (storage b))"

definition isSharedOne :: "IOBuf \<Rightarrow> bool" where
  "isSharedOne b = sharedOne b"

text \<open>Modelled from the spec: \<^verbatim>\<open>memcpy\<close> of a byte sequence into the storage of a node,
  starting \<open>pos\<close> bytes into the storage (the callers pass \<^verbatim>\<open>writableTail()\<close> or a
  position in the headroom).\<close>

definition memcpy :: "IOBuf \<Rightarrow> nat \<Rightarrow> byte list \<Rightarrow> IOBuf" where
  "memcpy b pos bs = b\<lparr>storage := take pos (storage b) @ bs @ drop (pos + length bs) (storage b)\<rparr>"

text \<open>Modelled from the spec: \<^verbatim>\<open>extendTail(n)\<close>, \<^verbatim>\<open>extendHead(n)\<close>, \<^verbatim>\<open>trimFront(n)\<close>,
  \<^verbatim>\<open>trimBack(n)\<close>, \<^verbatim>\<open>clear()\<close> of section 6 (\<^verbatim>\<open>IOBuf::append\<close>, \<^verbatim>\<open>prepend\<close>,
  \<^verbatim>\<open>trimStart\<close>, \<^verbatim>\<open>trimEnd\<close>, \<^verbatim>\<open>clear\<close>): they move the bounds of the data region
  and never touch the storage.\<close>

definition IOBuf_append :: "nat \<Rightarrow> IOBuf \<Rightarrow> IOBuf" where
  "IOBuf_append n b = b\<lparr>len := len b + n\<rparr>"

definition IOBuf_prepend :: "nat \<Rightarrow> IOBuf \<Rightarrow> IOBuf" where
  "IOBuf_prepend n b = b\<lparr>dataOff := dataOff b - n, len := len b + n\<rparr>"

definition IOBuf_trimStart :: "nat \<Rightarrow> IOBuf \<Rightarrow> IOBuf" where
  "IOBuf_trimStart n b = b\<lparr>dataOff := dataOff b + n, len := len b - n\<rparr>"

definition IOBuf_trimEnd :: "nat \<Rightarrow> IOBuf \<Rightarrow> IOBuf" where
  "IOBuf_trimEnd n b = b\<lparr>len := len b - n\<rparr>"

definition clear :: "IOBuf \<Rightarrow> IOBuf" where
  "clear b = b\<lparr>dataOff := 0, len := 0\<rparr>"

text \<open>Modelled from the spec: \<^verbatim>\<open>allocate(n)\<close>, a fresh unshared node with no data, no
  headroom and \<open>n\<close> bytes of storage.\<close>

definition create :: "nat \<Rightarrow> IOBuf" where
  "create n = \<lparr>storage = replicate n 0, dataOff = 0, len = 0, sharedOne = False\<rparr>"

text \<open>Modelled from the spec: \<^verbatim>\<open>cloneOne()\<close>, a second node on the same storage. From
  then on the storage has two holders, so the node cloned and the clone both report
  shared; the pair is (the node cloned, the clone).\<close>

definition cloneOne :: "IOBuf \<Rightarrow> IOBuf \<times> IOBuf" where
  "cloneOne b = (b\<lparr>sharedOne := True\<rparr>, b\<lparr>sharedOne := True\<rparr>)"

text \<open>Modelled from the spec: \<^verbatim>\<open>totalChainLength()\<close>.\<close>

definition computeChainDataLength :: "IOBuf list \<Rightarrow> nat" where
  "computeChainDataLength c = sum_list (map IOBuf_length c)"

section \<open>Packing and splicing: the helpers of the anonymous namespace\<close>

text \<open>
  \<^verbatim>\<open>packInto(tail, src, next)\<close>. The constant \<^verbatim>\<open>IOBufQueue::kMaxPackCopy\<close> is declared
  in the header and is a parameter here. The result is the tail after the copies and what
  is left of \<open>src\<close>.
\<close>

fun packInto_loop :: "nat \<Rightarrow> IOBuf \<Rightarrow> IOBuf list \<Rightarrow> IOBuf \<times> IOBuf list" where
  "packInto_loop copyRemaining tail [] = (tail, [])"
| "packInto_loop copyRemaining tail (s # rest) =
     (let n = IOBuf_length s in
      if n \<le> copyRemaining \<and> n \<le> IOBuf_tailroom tail then
        (if n > 0
         then packInto_loop (copyRemaining - n)
                (IOBuf_append n (memcpy tail (writableTail tail) (data s))) rest
         else packInto_loop copyRemaining tail rest)
      else (tail, s # rest))"

definition packInto :: "nat \<Rightarrow> IOBuf \<Rightarrow> IOBuf list \<Rightarrow> IOBuf \<times> IOBuf list" where
  "packInto kMaxPackCopy tail src =
     (if isSharedOne tail then (tail, src) else packInto_loop kMaxPackCopy tail src)"

definition appendToChain :: "nat \<Rightarrow> IOBuf list \<Rightarrow> IOBuf list \<Rightarrow> bool \<Rightarrow> IOBuf list" where
  "appendToChain kMaxPackCopy dst src pack =
     (if dst = [] then src
      else let tail = last dst;
               (tail', src') = (if pack then packInto kMaxPackCopy tail src else (tail, src))
           in butlast dst @ [tail'] @ src')"

section \<open>The queue\<close>

text \<open>
  The members \<^verbatim>\<open>head_\<close>, \<^verbatim>\<open>chainLength_\<close> and \<^verbatim>\<open>tailStart_\<close> are the fields \<open>head\<close>,
  \<open>chainLength\<close> and \<open>tailStart\<close> (a name cannot end in an underscore here);
  \<open>cacheChainLength\<close> is \<^verbatim>\<open>options_.cacheChainLength\<close>.

  \<^verbatim>\<open>chainLength_\<close> is a \<^verbatim>\<open>size_t\<close> that the removal code decrements whether or not the
  length is cached, so it is a 64-bit word; the sizes of nodes and requests are natural
  numbers. The three pointers of the write-range cache (\<^verbatim>\<open>tailStart_\<close> and the two ends
  of \<^verbatim>\<open>cachedRange\<close>) point into the storage of the tail node: \<open>None\<close> is the null
  pointer and \<open>Some k\<close> the address of byte \<open>k\<close> of that storage. Only the queue's own
  cache slot is modelled (no cache lent to a writer).

  An operation returns its outcome together with the queue it leaves: \<open>Inr\<close> the value
  returned, \<open>Inl\<close> the exception thrown (\<open>Overflow_error\<close>, \<open>Underflow_error\<close>) or the
  undefined behaviour reached (a null pointer or a released node dereferenced).
\<close>

datatype error = Overflow_error | Underflow_error | Null_dereference | Use_after_free

record IOBufQueue =
  cacheChainLength :: bool
  head :: "IOBuf list"
  chainLength :: "64 word"
  tailStart :: "nat option"
  cachedRange :: "nat option \<times> nat option"

type_synonym 'a outcome = "(error + 'a) \<times> IOBufQueue"

definition ptr_diff :: "nat option \<Rightarrow> nat option \<Rightarrow> nat" where
  "ptr_diff p q = (case (p, q) of (Some a, Some b) \<Rightarrow> a - b | _ \<Rightarrow> 0)"

definition ptr_add :: "nat option \<Rightarrow> nat \<Rightarrow> nat option" where
  "ptr_add p n = map_option (\<lambda>a. a + n) p"

text \<open>The constructor \<^verbatim>\<open>IOBufQueue(options)\<close>.\<close>

definition IOBufQueue_new :: "bool \<Rightarrow> IOBufQueue" where
  "IOBufQueue_new c =
     \<lparr>cacheChainLength = c, head = [], chainLength = 0, tailStart = None,
      cachedRange = (None, None)\<rparr>"

text \<open>Modelled from the spec: \<^verbatim>\<open>commitLease()\<close> of section 4.3 (\<^verbatim>\<open>flushCache\<close> of the
  header): the bytes written into the lease are folded into the tail's length and into
  the cached total. With a lease pending on an empty chain there is no tail to extend.\<close>

definition flushCache :: "IOBufQueue \<Rightarrow> error + IOBufQueue" where
  "flushCache q =
     (if tailStart q \<noteq> fst (cachedRange q) then
        (if head q = [] then Inl Null_dereference
         else
            let buf = last (head q);
                n = ptr_diff (fst (cachedRange q)) (Some (writableTail buf))
            in Inr (q\<lparr>head := butlast (head q) @ [IOBuf_append n buf],
                      chainLength := chainLength q + of_nat n,
                      tailStart := ptr_add (tailStart q) n\<rparr>))
      else Inr q)"

text \<open>Modelled from the spec: the re-derivation of the lease against the current tail at
  the close of a mutating scope (\<^verbatim>\<open>updateWritableTailCache\<close> of the header).\<close>

definition updateWritableTailCache :: "IOBufQueue \<Rightarrow> IOBufQueue" where
  "updateWritableTailCache q =
     (if head q \<noteq> [] \<and> \<not> isSharedOne (last (head q)) then
        let buf = last (head q) in
        q\<lparr>tailStart := Some (writableTail buf),
          cachedRange := (Some (writableTail buf), Some (writableTail buf + IOBuf_tailroom buf))\<rparr>
      else q\<lparr>tailStart := None, cachedRange := (None, None)\<rparr>)"

text \<open>Modelled from the spec: the scoped guard of section 4.3 without tail reuse
  (\<^verbatim>\<open>updateGuard()\<close> of the header): commit on entry, re-derive the lease on every exit
  path, the exceptional one included.\<close>

definition updateGuard :: "(IOBufQueue \<Rightarrow> 'a outcome) \<Rightarrow> IOBufQueue \<Rightarrow> 'a outcome" where
  "updateGuard body q =
     (case flushCache q of
        Inl e \<Rightarrow> (Inl e, q)
      | Inr q1 \<Rightarrow> (case body q1 of (r, q2) \<Rightarrow> (r, updateWritableTailCache q2)))"

subsection \<open>Prepending into the head room\<close>

definition markPrepended :: "nat \<Rightarrow> IOBufQueue \<Rightarrow> unit outcome" where
  "markPrepended n q =
     (if n = 0 then (Inr (), q)
      else case head q of
             [] \<Rightarrow> (Inl Null_dereference, q)
           | h # rest \<Rightarrow>
               (Inr (), q\<lparr>head := IOBuf_prepend n h # rest,
                          chainLength := chainLength q + of_nat n\<rparr>))"

text \<open>\<^verbatim>\<open>prepend(buf, n)\<close>: \<open>buf\<close> is the \<open>n\<close> bytes read. The first statement reads
  \<^verbatim>\<open>head_->headroom()\<close> before \<^verbatim>\<open>head_\<close> is tested, so the test \<^verbatim>\<open>!head_\<close> that
  follows is only reached on a chain with a head.\<close>

definition prepend :: "byte list \<Rightarrow> IOBufQueue \<Rightarrow> unit outcome" where
  "prepend buf q =
     (let n = length buf in
      case head q of
        [] \<Rightarrow> (Inl Null_dereference, q)
      | h # rest \<Rightarrow>
          let hroom = IOBuf_headroom h in
          if head q = [] \<or> hroom < n then (Inl Overflow_error, q)
          else (Inr (), q\<lparr>head := IOBuf_prepend n (memcpy h (hroom - n) buf) # rest,
                           chainLength := chainLength q + of_nat n\<rparr>))"

subsection \<open>Removal from the front and from the back\<close>

function split_loop ::
  "nat \<Rightarrow> nat \<Rightarrow> bool \<Rightarrow> IOBuf list \<Rightarrow> IOBufQueue \<Rightarrow> (IOBuf list) outcome" where
  "split_loop kMaxPackCopy n throwOnUnderflow result q =
     (if n = 0 then (Inr result, q)
      else case head q of
        [] \<Rightarrow> if throwOnUnderflow then (Inl Underflow_error, q) else (Inr result, q)
      | h # remainder \<Rightarrow>
          if IOBuf_length h \<le> n then
            split_loop kMaxPackCopy (n - IOBuf_length h) throwOnUnderflow
              (appendToChain kMaxPackCopy result [h] False)
              (q\<lparr>chainLength := chainLength q - of_nat (IOBuf_length h),
                 head := remainder\<rparr>)
          else
            (case cloneOne h of (h', clone) \<Rightarrow>
               (Inr (appendToChain kMaxPackCopy result
                       [IOBuf_trimEnd (IOBuf_length clone - n) clone] False),
                q\<lparr>head := IOBuf_trimStart n h' # remainder,
                  chainLength := chainLength q - of_nat n\<rparr>)))"
  by pat_completeness auto
termination
  by (relation "measure (\<lambda>(k, n, t, r, q). length (head q))") auto

definition split :: "nat \<Rightarrow> nat \<Rightarrow> bool \<Rightarrow> IOBufQueue \<Rightarrow> (IOBuf list) outcome" where
  "split kMaxPackCopy n throwOnUnderflow =
     updateGuard (\<lambda>q.
       case split_loop kMaxPackCopy n throwOnUnderflow [] q of
         (Inl e, q') \<Rightarrow> (Inl e, q')
       | (Inr result, q') \<Rightarrow> (Inr (if result = [] then [create 0] else result), q'))"

function trimStartAtMost_loop :: "nat \<Rightarrow> IOBufQueue \<Rightarrow> nat \<times> IOBufQueue" where
  "trimStartAtMost_loop amount q =
     (if amount > 0 then
        (case head q of
           [] \<Rightarrow> (amount, q)
         | h # rest \<Rightarrow>
             if IOBuf_length h > amount then
               (0, q\<lparr>head := IOBuf_trimStart amount h # rest,
                     chainLength := chainLength q - of_nat amount\<rparr>)
             else trimStartAtMost_loop (amount - IOBuf_length h)
                    (q\<lparr>chainLength := chainLength q - of_nat (IOBuf_length h),
                       head := rest\<rparr>))
      else (amount, q))"
  by pat_completeness auto
termination
  by (relation "measure (\<lambda>(a, q). length (head q))") auto

definition trimStartAtMost :: "nat \<Rightarrow> IOBufQueue \<Rightarrow> nat outcome" where
  "trimStartAtMost amount =
     updateGuard (\<lambda>q. case trimStartAtMost_loop amount q of
                        (amount', q') \<Rightarrow> (Inr (amount - amount'), q'))"

definition trimStart :: "nat \<Rightarrow> IOBufQueue \<Rightarrow> unit outcome" where
  "trimStart amount q =
     (case trimStartAtMost amount q of
        (Inl e, q') \<Rightarrow> (Inl e, q')
      | (Inr trimmed, q') \<Rightarrow>
          if trimmed \<noteq> amount then (Inl Underflow_error, q') else (Inr (), q'))"

function trimEndAtMost_loop :: "nat \<Rightarrow> IOBufQueue \<Rightarrow> nat \<times> IOBufQueue" where
  "trimEndAtMost_loop amount q =
     (if amount > 0 then
        (if head q = [] then (amount, q)
         else let t = last (head q) in
           if IOBuf_length t > amount then
             (0, q\<lparr>head := butlast (head q) @ [IOBuf_trimEnd amount t],
                   chainLength := chainLength q - of_nat amount\<rparr>)
           else trimEndAtMost_loop (amount - IOBuf_length t)
                  (q\<lparr>chainLength := chainLength q - of_nat (IOBuf_length t),
                     head := butlast (head q)\<rparr>))
      else (amount, q))"
  by pat_completeness auto
termination
  by (relation "measure (\<lambda>(a, q). length (head q))") auto

definition trimEndAtMost :: "nat \<Rightarrow> IOBufQueue \<Rightarrow> nat outcome" where
  "trimEndAtMost amount =
     updateGuard (\<lambda>q. case trimEndAtMost_loop amount q of
                        (amount', q') \<Rightarrow> (Inr (amount - amount'), q'))"

definition trimEnd :: "nat \<Rightarrow> IOBufQueue \<Rightarrow> unit outcome" where
  "trimEnd amount q =
     (case trimEndAtMost amount q of
        (Inl e, q') \<Rightarrow> (Inl e, q')
      | (Inr trimmed, q') \<Rightarrow>
          if trimmed \<noteq> amount then (Inl Underflow_error, q') else (Inr (), q'))"

subsection \<open>Appending raw bytes\<close>

definition MIN_ALLOC_SIZE :: nat where
  "MIN_ALLOC_SIZE = 2000"

definition MAX_ALLOC_SIZE :: nat where
  "MAX_ALLOC_SIZE = 8000"

text \<open>The body of \<^verbatim>\<open>append(const void* buf, size_t len)\<close> up to the copy: a new node
  is chained when there is no tail to write into.\<close>

definition append_grow :: "nat \<Rightarrow> nat \<Rightarrow> IOBufQueue \<Rightarrow> IOBufQueue" where
  "append_grow kMaxPackCopy n q =
     (if head q = [] \<or> isSharedOne (last (head q)) \<or> IOBuf_tailroom (last (head q)) = 0
      then q\<lparr>head := appendToChain kMaxPackCopy (head q)
                        [create (max MIN_ALLOC_SIZE (min n MAX_ALLOC_SIZE))] False\<rparr>
      else q)"

function append_loop :: "nat \<Rightarrow> byte list \<Rightarrow> IOBufQueue \<Rightarrow> IOBufQueue" where
  "append_loop kMaxPackCopy src q =
     (if length src \<noteq> 0 then
        let q1 = append_grow kMaxPackCopy (length src) q;
            lst = last (head q1);
            copyLen = min (length src) (IOBuf_tailroom lst)
        in append_loop kMaxPackCopy (drop copyLen src)
             (q1\<lparr>head := butlast (head q1) @
                           [IOBuf_append copyLen (memcpy lst (writableTail lst) (take copyLen src))],
                 chainLength := chainLength q1 + of_nat copyLen\<rparr>)
      else q)"
  by pat_completeness auto

termination append_loop
proof (relation "measure (\<lambda>(k, src, q). length src)", goal_cases)
  case 1
  show ?case by simp
next
  case (2 k src q q1 lst copyLen)
  have "0 < IOBuf_tailroom (last (head (append_grow k (length src) q)))"
    by (auto simp: append_grow_def appendToChain_def create_def IOBuf_tailroom_def
        capacity_def writableTail_def MIN_ALLOC_SIZE_def max_def)
  with 2 have "0 < copyLen" by simp
  with 2 show ?case by simp
qed

definition append_bytes :: "nat \<Rightarrow> byte list \<Rightarrow> IOBufQueue \<Rightarrow> unit outcome" where
  "append_bytes kMaxPackCopy buf =
     updateGuard (\<lambda>q. (Inr (), append_loop kMaxPackCopy buf q))"

subsection \<open>The write lease\<close>

text \<open>Modelled from the spec: the queue's \<^verbatim>\<open>writableTail()\<close> and \<^verbatim>\<open>tailroom()\<close> of the
  header, the start and the size of the memory still on lease.\<close>

definition queue_writableTail :: "IOBufQueue \<Rightarrow> nat option" where
  "queue_writableTail q = fst (cachedRange q)"

definition queue_tailroom :: "IOBufQueue \<Rightarrow> nat" where
  "queue_tailroom q = ptr_diff (snd (cachedRange q)) (fst (cachedRange q))"

definition preallocateSlow ::
  "nat \<Rightarrow> nat \<Rightarrow> nat \<Rightarrow> nat \<Rightarrow> IOBufQueue \<Rightarrow> (nat option \<times> nat) outcome" where
  "preallocateSlow kMaxPackCopy mn newAllocationSize mx q =
     (case flushCache q of
        Inl e \<Rightarrow> (Inl e, q)
      | Inr q1 \<Rightarrow>
          let newBuf = create (max mn newAllocationSize);
              ts = writableTail newBuf;
              q2 = q1\<lparr>tailStart := Some ts,
                      cachedRange := (Some ts, Some (ts + IOBuf_tailroom newBuf)),
                      head := appendToChain kMaxPackCopy (head q1) [newBuf] False\<rparr>
          in (Inr (queue_writableTail q2, min mx (queue_tailroom q2)), q2))"

text \<open>Modelled from the spec: \<^verbatim>\<open>requestLease(minBytes, recommendedBytes, maxBytes)\<close> and
  \<^verbatim>\<open>reportWritten(k)\<close> of section 4.3 (\<^verbatim>\<open>preallocate\<close> and \<^verbatim>\<open>postallocate\<close> of the
  header). Only the slow path is in the translation unit.\<close>

definition preallocate ::
  "nat \<Rightarrow> nat \<Rightarrow> nat \<Rightarrow> nat \<Rightarrow> IOBufQueue \<Rightarrow> (nat option \<times> nat) outcome" where
  "preallocate kMaxPackCopy mn newAllocationSize mx q =
     (if queue_writableTail q \<noteq> None \<and> queue_tailroom q \<ge> mn
      then (Inr (queue_writableTail q, min mx (queue_tailroom q)), q)
      else preallocateSlow kMaxPackCopy mn newAllocationSize mx q)"

definition postallocate :: "nat \<Rightarrow> IOBufQueue \<Rightarrow> IOBufQueue" where
  "postallocate n q = q\<lparr>cachedRange := (ptr_add (fst (cachedRange q)) n, snd (cachedRange q))\<rparr>"

definition SIZE_MAX :: nat where
  "SIZE_MAX = 18446744073709551615"

text \<open>A writer that places the bytes \<open>bs\<close> through the lease: it asks for a span of at
  least \<open>length bs\<close> bytes, copies \<open>bs\<close> to the start of the span and reports them
  written. Nothing is committed to the chain.\<close>

definition write_lease :: "nat \<Rightarrow> nat \<Rightarrow> byte list \<Rightarrow> IOBufQueue \<Rightarrow> unit outcome" where
  "write_lease kMaxPackCopy newAllocationSize bs q =
     (case preallocate kMaxPackCopy (length bs) newAllocationSize SIZE_MAX q of
        (Inl e, q1) \<Rightarrow> (Inl e, q1)
      | (Inr (p, avail), q1) \<Rightarrow>
          (case (p, head q1) of
             (Some pos, _ # _) \<Rightarrow>
               (Inr (), postallocate (length bs)
                          (q1\<lparr>head := butlast (head q1) @ [memcpy (last (head q1)) pos bs]\<rparr>))
           | _ \<Rightarrow> (Inl Null_dereference, q1)))"

subsection \<open>Appending another queue\<close>

text \<open>
  \<^verbatim>\<open>maybeReuseTail(oldTail)\<close>. The reference \<^verbatim>\<open>oldTail\<close> is the node it refers to, as it
  is now, with its position in the chain of this queue (\<open>None\<close> when the node is not in
  this chain). Modelled from the spec: \<^verbatim>\<open>trySplitTailCapacity\<close> is the parameter
  \<open>maybeSplitTail\<close>, which gives the node without its tail capacity and the new,
  data-less node, or nothing.
\<close>

definition maybeReuseTail ::
  "(IOBuf \<Rightarrow> (IOBuf \<times> IOBuf) option) \<Rightarrow> IOBuf \<Rightarrow> nat option \<Rightarrow> IOBufQueue
     \<Rightarrow> error + IOBufQueue" where
  "maybeReuseTail maybeSplitTail oldTail pos q =
     (if isSharedOne oldTail then Inr q
      else if head q = [] then Inl Null_dereference
      else if pos = Some (length (head q) - 1) then Inr q
      else if IOBuf_tailroom (last (head q)) \<ge> IOBuf_tailroom oldTail
                \<and> \<not> isSharedOne (last (head q)) then Inr q
      else if IOBuf_length oldTail = 0 then
        (case pos of
           Some i \<Rightarrow> Inr (q\<lparr>head := take i (head q) @ drop (Suc i) (head q) @ [oldTail]\<rparr>)
         | None \<Rightarrow> Inr (q\<lparr>head := head q @ [oldTail]\<rparr>))
      else
        (case maybeSplitTail oldTail of
           None \<Rightarrow> Inr q
         | Some (oldTail', newTail) \<Rightarrow>
             (case pos of
                Some i \<Rightarrow> Inr (q\<lparr>head := (head q)[i := oldTail'] @ [newTail]\<rparr>)
              | None \<Rightarrow> Inr (q\<lparr>head := head q @ [newTail]\<rparr>))))"

text \<open>
  \<^verbatim>\<open>append(IOBufQueue& other, bool pack, bool allowTailReuse)\<close>. The result is the
  outcome, this queue and the other queue. Modelled from the spec: the scoped guard of
  section 4.3; the guard of \<open>other\<close> is the one that is given \<^verbatim>\<open>allowTailReuse\<close>, so at
  its close it runs the tail reclamation of \<open>other\<close> against the tail that \<open>other\<close> had
  at entry. The guards close in reverse order. A node that the pack selector consumed has
  been released.
\<close>

definition append_queue ::
  "nat \<Rightarrow> (IOBuf \<Rightarrow> (IOBuf \<times> IOBuf) option) \<Rightarrow> bool \<Rightarrow> bool \<Rightarrow> IOBufQueue \<Rightarrow> IOBufQueue
     \<Rightarrow> (error + unit) \<times> IOBufQueue \<times> IOBufQueue" where
  "append_queue kMaxPackCopy maybeSplitTail pack allowTailReuse this other =
     (if head other = [] then (Inr (), this, other)
      else (case flushCache other of
        Inl e \<Rightarrow> (Inl e, this, other)
      | Inr other1 \<Rightarrow>
          (let oldTail = (if allowTailReuse \<and> head other1 \<noteq> []
                          then Some (last (head other1)) else None)
           in (case flushCache this of
            Inl e \<Rightarrow> (Inl e, this, other1)
          | Inr this1 \<Rightarrow>
              (let this2 =
                    (if cacheChainLength this1 then
                       (if cacheChainLength other1
                        then this1\<lparr>chainLength := chainLength this1 + chainLength other1\<rparr>
                        else this1\<lparr>chainLength := chainLength this1 +
                                    of_nat (computeChainDataLength (head other1))\<rparr>)
                     else this1);
                  released = (head this2 \<noteq> [] \<and> pack \<and>
                              snd (packInto kMaxPackCopy (last (head this2)) (head other1)) = []);
                  this3 = this2\<lparr>head := appendToChain kMaxPackCopy (head this2) (head other1) pack\<rparr>;
                  other2 = other1\<lparr>head := [], chainLength := 0\<rparr>;
                  this4 = updateWritableTailCache this3
              in (case oldTail of
                   None \<Rightarrow> (Inr (), this4, updateWritableTailCache other2)
                 | Some t \<Rightarrow>
                     (if released then (Inl Use_after_free, this4, other2)
                      else (case maybeReuseTail maybeSplitTail t None other2 of
                             Inl e \<Rightarrow> (Inl e, this4, other2)
                           | Inr other3 \<Rightarrow>
                               (Inr (), this4, updateWritableTailCache other3)))))))))"

text \<open>
  \<^verbatim>\<open>append(std::unique_ptr<IOBuf>&& buf, bool pack, bool allowTailReuse)\<close>, the sibling
  of the append above for an owned chain (\<open>[]\<close> is the null pointer). Here the guard that
  is given \<^verbatim>\<open>allowTailReuse\<close> is the guard of this queue, whose chain only grows behind the
  old tail: the old tail keeps its position.
\<close>

definition append_chain ::
  "nat \<Rightarrow> (IOBuf \<Rightarrow> (IOBuf \<times> IOBuf) option) \<Rightarrow> IOBuf list \<Rightarrow> bool \<Rightarrow> bool \<Rightarrow> IOBufQueue
     \<Rightarrow> unit outcome" where
  "append_chain kMaxPackCopy maybeSplitTail buf pack allowTailReuse q =
     (if buf = [] then (Inr (), q)
      else (case flushCache q of
        Inl e \<Rightarrow> (Inl e, q)
      | Inr q1 \<Rightarrow>
          (let oldTail = (if allowTailReuse \<and> head q1 \<noteq> []
                          then Some (length (head q1) - 1) else None);
               q2 = (if cacheChainLength q1
                     then q1\<lparr>chainLength := chainLength q1 +
                                 of_nat (computeChainDataLength buf)\<rparr>
                     else q1);
               q3 = q2\<lparr>head := appendToChain kMaxPackCopy (head q2) buf pack\<rparr>
           in (case oldTail of
                 None \<Rightarrow> (Inr (), updateWritableTailCache q3)
               | Some i \<Rightarrow>
                   (case maybeReuseTail maybeSplitTail (head q3 ! i) (Some i) q3 of
                      Inl e \<Rightarrow> (Inl e, q3)
                    | Inr q4 \<Rightarrow> (Inr (), updateWritableTailCache q4))))))"

subsection \<open>Draining and serialising\<close>

text \<open>
  \<^verbatim>\<open>clearAndTryReuseLargestBuffer()\<close>. The loop takes the nodes off the chain one at a
  time and destroys every node it does not keep: a rejected \<^verbatim>\<open>buf\<close> at the end of its
  iteration, a displaced \<^verbatim>\<open>best\<close> when \<^verbatim>\<open>best\<close> is assigned. A node that is destroyed
  gives up its hold on its storage, so a node further down the chain that shared its
  storage only with such nodes is no longer shared when the loop reaches it. Here the
  holders of the storage are therefore explicit. Modelled from the spec: the reference
  counting of the Buffer collaborator (section 3, and the shared-ownership handle of
  section 9). A storage is named by a number; \<open>refs s\<close> is the number of buffers, in this
  chain or anywhere else, that hold the storage \<open>s\<close>; \<open>infos\<close> names the storage of each
  node of the chain, in chain order. In this operation \<^verbatim>\<open>isSharedOne()\<close> is read from the
  count of the moment: \<open>held refs buf s\<close> is the node \<open>buf\<close> on storage \<open>s\<close> as it is
  while the counts are \<open>refs\<close>. A buffer whose storage belongs to the user and is never
  released is a holder outside the chain. The list \<open>infos\<close> has one entry for each node:
  the loop walks the nodes paired with their storages, and every statement below asks
  for a list as long as the chain.
\<close>

definition release :: "(nat \<Rightarrow> nat) \<Rightarrow> nat \<Rightarrow> nat \<Rightarrow> nat" where
  "release refs s = refs(s := refs s - 1)"

definition held :: "(nat \<Rightarrow> nat) \<Rightarrow> IOBuf \<Rightarrow> nat \<Rightarrow> IOBuf" where
  "held refs buf s = buf\<lparr>sharedOne := 1 < refs s\<rparr>"

fun clearAndTryReuseLargestBuffer_loop ::
  "(nat \<Rightarrow> nat) \<Rightarrow> (IOBuf \<times> nat) list \<Rightarrow> (IOBuf \<times> nat) option \<Rightarrow> (IOBuf \<times> nat) option" where
  "clearAndTryReuseLargestBuffer_loop refs [] best = best"
| "clearAndTryReuseLargestBuffer_loop refs ((node, s) # rest) best =
     (let buf = held refs node s in
      if \<not> isSharedOne buf \<and>
         (case best of None \<Rightarrow> True | Some (b, sb) \<Rightarrow> capacity buf > capacity b)
      then clearAndTryReuseLargestBuffer_loop
             (case best of None \<Rightarrow> refs | Some (b, sb) \<Rightarrow> release refs sb) rest (Some (buf, s))
      else clearAndTryReuseLargestBuffer_loop (release refs s) rest best)"

definition clearAndTryReuseLargestBuffer ::
  "(nat \<Rightarrow> nat) \<Rightarrow> nat list \<Rightarrow> IOBufQueue \<Rightarrow> unit outcome" where
  "clearAndTryReuseLargestBuffer refs infos =
     updateGuard (\<lambda>q.
       let best = clearAndTryReuseLargestBuffer_loop refs (zip (head q) infos) None;
           q1 = (case best of
                   None \<Rightarrow> q\<lparr>head := []\<rparr>
                 | Some (b, s) \<Rightarrow> q\<lparr>head := [clear b]\<rparr>)
       in (Inr (), q1\<lparr>chainLength := 0\<rparr>))"

text \<open>\<^verbatim>\<open>appendToString(out)\<close>: the data of every node in order, then the bytes between
  \<^verbatim>\<open>tailStart_\<close> and the start of the cached range, read from the storage of the tail.
  \<^verbatim>\<open>reserve\<close> changes no content.\<close>

definition appendToString :: "IOBufQueue \<Rightarrow> byte list \<Rightarrow> error + byte list" where
  "appendToString q out =
     (if head q = [] then Inr out
      else
         let out1 = out @ concat (map data (head q)) in
         if tailStart q \<noteq> fst (cachedRange q) then
           (case tailStart q of
              None \<Rightarrow> Inl Null_dereference
            | Some ts \<Rightarrow>
                Inr (out1 @ take (ptr_diff (fst (cachedRange q)) (tailStart q))
                                 (drop ts (storage (last (head q))))))
         else Inr out1)"

text \<open>The total length, as \<^verbatim>\<open>appendToString\<close> computes it for \<^verbatim>\<open>reserve\<close>: the cached sum
  when lengths are cached and the sum over the chain otherwise, plus the bytes on lease
  that are written and not yet committed.\<close>

definition totalLength :: "IOBufQueue \<Rightarrow> 64 word" where
  "totalLength q =
     (if cacheChainLength q
      then chainLength q + of_nat (ptr_diff (fst (cachedRange q)) (tailStart q))
      else of_nat (computeChainDataLength (head q)) +
           of_nat (ptr_diff (fst (cachedRange q)) (tailStart q)))"

section \<open>Well-formed queues and their byte content\<close>

text \<open>A node is well formed when its data region lies inside its storage.\<close>

definition wf_buf :: "IOBuf \<Rightarrow> bool" where
  "wf_buf b \<longleftrightarrow> dataOff b + len b \<le> length (storage b)"

definition chain_data :: "IOBuf list \<Rightarrow> byte list" where
  "chain_data c = concat (map data c)"

text \<open>The bytes written into the lease and not yet committed: their number, and the
  bytes themselves, read from the storage of the tail.\<close>

definition pending :: "IOBufQueue \<Rightarrow> nat" where
  "pending q = ptr_diff (fst (cachedRange q)) (tailStart q)"

definition lease_bytes :: "IOBufQueue \<Rightarrow> byte list" where
  "lease_bytes q =
     (case tailStart q of
        None \<Rightarrow> []
      | Some ts \<Rightarrow> take (pending q) (drop ts (storage (last (head q)))))"

definition content :: "IOBufQueue \<Rightarrow> byte list" where
  "content q = chain_data (head q) @ lease_bytes q"

text \<open>Invariant I2: the cache is null when there is no tail to write into (no node, or a
  shared tail); otherwise the lease starts at the end of the tail's data and ends with the
  tail's storage, and the bytes reported written lie in between.\<close>

definition lease_ok :: "IOBufQueue \<Rightarrow> bool" where
  "lease_ok q =
     (if head q \<noteq> [] \<and> \<not> isSharedOne (last (head q)) then
        (case cachedRange q of
           (Some f, Some e) \<Rightarrow>
              tailStart q = Some (writableTail (last (head q))) \<and>
              writableTail (last (head q)) \<le> f \<and> f \<le> e \<and> e = capacity (last (head q))
         | _ \<Rightarrow> False)
      else tailStart q = None \<and> cachedRange q = (None, None))"

text \<open>Invariant I3, for the part of the total that is committed to the chain.\<close>

definition length_ok :: "IOBufQueue \<Rightarrow> bool" where
  "length_ok q =
     (cacheChainLength q \<longrightarrow> chainLength q = of_nat (computeChainDataLength (head q)))"

definition wf :: "IOBufQueue \<Rightarrow> bool" where
  "wf q \<longleftrightarrow> list_all wf_buf (head q) \<and> lease_ok q \<and> length_ok q"

text \<open>A queue used to instantiate the theorems: one unshared node that holds the bytes
  1, 2, 3 in a storage of five bytes, the lease in step with the tail and nothing on lease
  written.\<close>

abbreviation (input) ex_node :: IOBuf where
  "ex_node \<equiv> \<lparr>storage = [1, 2, 3, 0, 0], dataOff = 0, len = 3, sharedOne = False\<rparr>"

abbreviation (input) ex_queue :: IOBufQueue where
  "ex_queue \<equiv> \<lparr>cacheChainLength = True, head = [ex_node], chainLength = 3,
      tailStart = Some 3, cachedRange = (Some 3, Some 5)\<rparr>"

text \<open>The allocation rule in the words of the specification: while bytes remain, a new
  node of size \<open>clamp(remaining, MIN_ALLOC, MAX_ALLOC)\<close> is allocated and filled. The list
  holds the sizes of the nodes allocated for \<open>r\<close> bytes that found no room in the tail.\<close>

function alloc_sizes :: "nat \<Rightarrow> nat list" where
  "alloc_sizes r =
     (if r = 0 then []
      else max MIN_ALLOC_SIZE (min r MAX_ALLOC_SIZE) #
           alloc_sizes (r - min r (max MIN_ALLOC_SIZE (min r MAX_ALLOC_SIZE))))"
  by pat_completeness auto
termination
  by (relation "measure (\<lambda>r. r)") (auto simp: MIN_ALLOC_SIZE_def MAX_ALLOC_SIZE_def)

text \<open>The number of bytes, out of \<open>n\<close>, that find room in the tail of the chain \<open>c\<close>:
  none when there is no tail or the tail is shared.\<close>

definition tail_reuse :: "IOBuf list \<Rightarrow> nat \<Rightarrow> nat" where
  "tail_reuse c n =
     (if c \<noteq> [] \<and> \<not> isSharedOne (last c) then min n (IOBuf_tailroom (last c)) else 0)"

text \<open>What the proofs ask of the parameter \<open>maybeSplitTail\<close> (the collaborator's
  \<^verbatim>\<open>trySplitTailCapacity\<close>): when it splits a well-formed node, the node keeps its data
  and the node split off carries none.\<close>

definition split_ok :: "(IOBuf \<Rightarrow> (IOBuf \<times> IOBuf) option) \<Rightarrow> bool" where
  "split_ok maybeSplitTail \<longleftrightarrow>
     (\<forall>b b' t. maybeSplitTail b = Some (b', t) \<longrightarrow> wf_buf b \<longrightarrow>
        wf_buf b' \<and> data b' = data b \<and> wf_buf t \<and> data t = [])"

text \<open>A sequence of appends: raw bytes through \<^verbatim>\<open>append(buf, len)\<close>, bytes written by a
  writer into the lease (with the allocation size it recommends) and left uncommitted, or
  an owned chain given to \<^verbatim>\<open>append(std::move(buf), pack, allowTailReuse)\<close>, whose bytes
  are the data of its nodes.\<close>

datatype append_op = Append "byte list" | Written nat "byte list" | Chain "IOBuf list" bool bool

fun op_bytes :: "append_op \<Rightarrow> byte list" where
  "op_bytes (Append bs) = bs"
| "op_bytes (Written newAllocationSize bs) = bs"
| "op_bytes (Chain buf pack allowTailReuse) = chain_data buf"

fun op_ok :: "append_op \<Rightarrow> bool" where
  "op_ok (Chain buf pack allowTailReuse) = list_all wf_buf buf"
| "op_ok _ = True"

fun apply_op ::
  "nat \<Rightarrow> (IOBuf \<Rightarrow> (IOBuf \<times> IOBuf) option) \<Rightarrow> append_op \<Rightarrow> IOBufQueue \<Rightarrow> unit outcome" where
  "apply_op kMaxPackCopy maybeSplitTail (Append bs) q = append_bytes kMaxPackCopy bs q"
| "apply_op kMaxPackCopy maybeSplitTail (Written newAllocationSize bs) q =
     write_lease kMaxPackCopy newAllocationSize bs q"
| "apply_op kMaxPackCopy maybeSplitTail (Chain buf pack allowTailReuse) q =
     append_chain kMaxPackCopy maybeSplitTail buf pack allowTailReuse q"

fun run_appends ::
  "nat \<Rightarrow> (IOBuf \<Rightarrow> (IOBuf \<times> IOBuf) option) \<Rightarrow> append_op list \<Rightarrow> IOBufQueue \<Rightarrow> unit outcome" where
  "run_appends kMaxPackCopy maybeSplitTail [] q = (Inr (), q)"
| "run_appends kMaxPackCopy maybeSplitTail (x # xs) q =
     (case apply_op kMaxPackCopy maybeSplitTail x q of
        (Inl e, q') \<Rightarrow> (Inl e, q')
      | (Inr u, q') \<Rightarrow> run_appends kMaxPackCopy maybeSplitTail xs q')"

text \<open>The defining equations of these two recursions are applied by hand.\<close>

declare append_loop.simps [simp del]
declare alloc_sizes.simps [simp del]

text \<open>Two incoming nodes for the pack selector: one byte that fits the tail room of
  \<open>ex_node\<close>, and three bytes that do not.\<close>

abbreviation (input) ex_small :: IOBuf where
  "ex_small \<equiv> \<lparr>storage = [7, 0], dataOff = 0, len = 1, sharedOne = False\<rparr>"

abbreviation (input) ex_big :: IOBuf where
  "ex_big \<equiv> \<lparr>storage = [4, 5, 6], dataOff = 0, len = 3, sharedOne = False\<rparr>"

text \<open>A second queue, holding the one byte of \<open>ex_small\<close>.\<close>

abbreviation (input) ex_other :: IOBufQueue where
  "ex_other \<equiv> \<lparr>cacheChainLength = True, head = [ex_small], chainLength = 1,
      tailStart = Some 1, cachedRange = (Some 1, Some 2)\<rparr>"

text \<open>
  Sharing as the drain loop meets it. \<open>shared_when_reached refs infos\<close>
  tells, for each node of a chain whose storages are \<open>infos\<close>, whether the node is still
  shared at the moment the loop reaches it, that is, once every node before it has given
  up its hold. \<open>holders_ok\<close> says that every node of the chain is counted among the
  holders of its storage, and \<open>flags_ok\<close> that \<open>infos\<close> has one entry for each node and
  the shared flag of every node is the one the counts give when the operation starts.
\<close>

fun shared_when_reached :: "(nat \<Rightarrow> nat) \<Rightarrow> nat list \<Rightarrow> bool list" where
  "shared_when_reached refs [] = []"
| "shared_when_reached refs (s # ss) = (1 < refs s) # shared_when_reached (release refs s) ss"

definition holders_ok :: "(nat \<Rightarrow> nat) \<Rightarrow> nat list \<Rightarrow> bool" where
  "holders_ok refs infos \<longleftrightarrow> list_all (\<lambda>s. count_list infos s \<le> refs s) infos"

definition flags_ok :: "(nat \<Rightarrow> nat) \<Rightarrow> nat list \<Rightarrow> IOBuf list \<Rightarrow> bool" where
  "flags_ok refs infos c \<longleftrightarrow> list_all2 (\<lambda>b s. isSharedOne b = (1 < refs s)) c infos"

text \<open>Chains with shared storage: the node \<open>ex_a\<close> (capacity 8) and a clone of it hold
  storage 7, the unshared node \<open>ex_big\<close> (capacity 3) holds storage 8, and nothing else
  holds either. In \<open>ex_lent\<close> the one node shares storage 7 with a buffer outside the
  queue.\<close>

abbreviation (input) ex_a :: IOBuf where
  "ex_a \<equiv> \<lparr>storage = [1, 2, 3, 0, 0, 0, 0, 0], dataOff = 0, len = 3, sharedOne = True\<rparr>"

definition ex_holders :: "nat \<Rightarrow> nat" where
  "ex_holders s = (if s = 7 then 2 else if s = 8 then 1 else 0)"

abbreviation (input) ex_pair :: IOBufQueue where
  "ex_pair \<equiv> \<lparr>cacheChainLength = True, head = [ex_a, ex_a], chainLength = 6,
      tailStart = None, cachedRange = (None, None)\<rparr>"

abbreviation (input) ex_triple :: IOBufQueue where
  "ex_triple \<equiv> \<lparr>cacheChainLength = True, head = [ex_a, ex_big, ex_a], chainLength = 9,
      tailStart = None, cachedRange = (None, None)\<rparr>"

abbreviation (input) ex_lent :: IOBufQueue where
  "ex_lent \<equiv> \<lparr>cacheChainLength = True, head = [ex_a], chainLength = 3,
      tailStart = None, cachedRange = (None, None)\<rparr>"

section \<open>Nodes, chains and the scoped guard\<close>

lemma data_length: "wf_buf b \<Longrightarrow> length (data b) = len b"
  by (simp add: wf_buf_def data_def)

lemma chain_data_length:
  "list_all wf_buf c \<Longrightarrow> length (chain_data c) = computeChainDataLength c"
  by (induction c) (simp_all add: chain_data_def computeChainDataLength_def data_length IOBuf_length_def)

lemma chain_data_Cons: "chain_data (b # c) = data b @ chain_data c"
  by (simp add: chain_data_def)

lemma chain_data_append: "chain_data (c @ d) = chain_data c @ chain_data d"
  by (simp add: chain_data_def)

lemma chain_data_Nil: "chain_data [] = []"
  by (simp add: chain_data_def)

lemma data_trimStart: "data (IOBuf_trimStart n b) = drop n (data b)"
  by (simp add: data_def IOBuf_trimStart_def drop_take add.commute)

lemma data_trimEnd: "data (IOBuf_trimEnd k b) = take (len b - k) (data b)"
  by (simp add: data_def IOBuf_trimEnd_def)

lemma wf_buf_trimStart: "wf_buf b \<Longrightarrow> n \<le> len b \<Longrightarrow> wf_buf (IOBuf_trimStart n b)"
  by (simp add: wf_buf_def IOBuf_trimStart_def)

lemma wf_buf_trimEnd: "wf_buf b \<Longrightarrow> wf_buf (IOBuf_trimEnd n b)"
  by (simp add: wf_buf_def IOBuf_trimEnd_def)

lemma data_append_pending:
  "data (IOBuf_append p b) = data b @ take p (drop (writableTail b) (storage b))"
proof -
  have "drop (dataOff b + len b) (storage b) = drop (len b) (drop (dataOff b) (storage b))"
    by (simp add: add.commute)
  then show ?thesis
    by (simp add: data_def IOBuf_append_def writableTail_def take_add)
qed

lemma flushCache_ok:
  assumes "wf q"
  shows "\<exists>q1. flushCache q = Inr q1 \<and> list_all wf_buf (head q1) \<and> length_ok q1
            \<and> chain_data (head q1) = content q
            \<and> cacheChainLength q1 = cacheChainLength q
            \<and> map capacity (head q1) = map capacity (head q)
            \<and> map isSharedOne (head q1) = map isSharedOne (head q)
            \<and> map clear (head q1) = map clear (head q)
            \<and> (tailStart q = fst (cachedRange q) \<longrightarrow> q1 = q)"
proof (cases "tailStart q = fst (cachedRange q)")
  case True
  then have "pending q = 0" by (simp add: pending_def ptr_diff_def split: option.splits)
  with True assms show ?thesis
    by (simp add: flushCache_def wf_def content_def lease_bytes_def split: option.splits)
next
  case False
  from assms have lo: "lease_ok q" and wfh: "list_all wf_buf (head q)" and lk: "length_ok q"
    by (simp_all add: wf_def)
  have cond: "head q \<noteq> [] \<and> \<not> isSharedOne (last (head q))"
  proof (rule ccontr)
    assume "\<not> ?thesis"
    with lo have "tailStart q = None \<and> cachedRange q = (None, None)"
      unfolding lease_ok_def by (simp only: if_False)
    with False show False by simp
  qed
  then obtain bl t where hq: "head q = bl @ [t]"
    by (metis append_butlast_last_id)
  from lo cond have cs: "(case cachedRange q of
           (Some f, Some e) \<Rightarrow>
              tailStart q = Some (writableTail (last (head q))) \<and>
              writableTail (last (head q)) \<le> f \<and> f \<le> e \<and> e = capacity (last (head q))
         | _ \<Rightarrow> False)"
    by (simp add: lease_ok_def)
  obtain a b where ab: "cachedRange q = (a, b)" by (cases "cachedRange q")
  from cs ab obtain f where a: "a = Some f" by (cases a) simp_all
  from cs ab a obtain e where b: "b = Some e" by (cases b) simp_all
  from ab a b have cr: "cachedRange q = (Some f, Some e)" by simp
  from cs cr hq have ts: "tailStart q = Some (writableTail t)"
    and le: "writableTail t \<le> f" "f \<le> e" "e = capacity t"
    by simp_all
  define p where "p = f - writableTail t"
  have fl: "flushCache q = Inr (q\<lparr>head := bl @ [IOBuf_append p t],
              chainLength := chainLength q + of_nat p, tailStart := Some (writableTail t + p)\<rparr>)"
    using False hq cr ts by (simp add: flushCache_def ptr_diff_def ptr_add_def p_def Let_def)
  have wt: "wf_buf (IOBuf_append p t)"
    using le wfh hq by (simp add: wf_buf_def IOBuf_append_def p_def writableTail_def capacity_def)
  have pq: "pending q = p"
    using cr ts by (simp add: pending_def ptr_diff_def p_def)
  have cd: "chain_data (bl @ [IOBuf_append p t]) = content q"
    using hq ts pq
    by (simp add: content_def lease_bytes_def chain_data_append chain_data_Cons chain_data_Nil
        data_append_pending)
  have lko: "cacheChainLength q \<longrightarrow> chainLength q + of_nat p
       = (of_nat (computeChainDataLength (bl @ [IOBuf_append p t])) :: 64 word)"
    using lk hq by (simp add: length_ok_def computeChainDataLength_def IOBuf_length_def IOBuf_append_def)
  show ?thesis
    using fl wt wfh hq cd lko False
    by (simp add: length_ok_def capacity_def IOBuf_append_def isSharedOne_def clear_def)
qed


lemma updateWritableTailCache_fields:
  "head (updateWritableTailCache q) = head q"
  "chainLength (updateWritableTailCache q) = chainLength q"
  "cacheChainLength (updateWritableTailCache q) = cacheChainLength q"
  "pending (updateWritableTailCache q) = 0"
  "lease_bytes (updateWritableTailCache q) = []"
  by (simp_all add: updateWritableTailCache_def Let_def pending_def ptr_diff_def lease_bytes_def)

lemma updateWritableTailCache_content:
  "content (updateWritableTailCache q) = chain_data (head q)"
  by (simp add: content_def updateWritableTailCache_fields)

lemma updateWritableTailCache_lease_ok:
  "list_all wf_buf (head q) \<Longrightarrow> lease_ok (updateWritableTailCache q)"
proof -
  assume a: "list_all wf_buf (head q)"
  show ?thesis
  proof (cases "head q \<noteq> [] \<and> \<not> isSharedOne (last (head q))")
    case True
    then have "last (head q) \<in> set (head q)" by simp
    with a have "wf_buf (last (head q))" by (simp add: list_all_iff)
    with True show ?thesis
      by (simp add: lease_ok_def updateWritableTailCache_def Let_def IOBuf_tailroom_def
          wf_buf_def capacity_def writableTail_def)
  next
    case False
    then show ?thesis
      by (auto simp: lease_ok_def updateWritableTailCache_def)
  qed
qed

lemma updateWritableTailCache_wf:
  "list_all wf_buf (head q) \<Longrightarrow> length_ok q \<Longrightarrow> wf (updateWritableTailCache q)"
  by (simp add: wf_def updateWritableTailCache_lease_ok updateWritableTailCache_fields length_ok_def)

lemma totalLength_updateWritableTailCache:
  "length_ok q \<Longrightarrow> totalLength (updateWritableTailCache q) = of_nat (computeChainDataLength (head q))"
  using updateWritableTailCache_fields(4) [of q]
  by (simp add: totalLength_def updateWritableTailCache_fields(1-3) length_ok_def pending_def)

lemma updateWritableTailCache_id:
  assumes "wf q" "tailStart q = fst (cachedRange q)"
  shows "updateWritableTailCache q = q"
proof (cases "head q \<noteq> [] \<and> \<not> isSharedOne (last (head q))")
  case True
  with assms(1) have lo: "(case cachedRange q of
           (Some f, Some e) \<Rightarrow>
              tailStart q = Some (writableTail (last (head q))) \<and>
              writableTail (last (head q)) \<le> f \<and> f \<le> e \<and> e = capacity (last (head q))
         | _ \<Rightarrow> False)"
    by (simp add: wf_def lease_ok_def)
  obtain a b where ab: "cachedRange q = (a, b)" by (cases "cachedRange q")
  from lo ab obtain f where a: "a = Some f" by (cases a) simp_all
  from lo ab a obtain e where b: "b = Some e" by (cases b) simp_all
  from lo ab a b have ts: "tailStart q = Some (writableTail (last (head q)))"
    and e: "e = capacity (last (head q))" and le: "writableTail (last (head q)) \<le> f" "f \<le> e"
    by simp_all
  from assms(2) ts ab a have f: "f = writableTail (last (head q))" by simp
  from le e f have "writableTail (last (head q)) + IOBuf_tailroom (last (head q)) = e"
    by (simp add: IOBuf_tailroom_def)
  with True ts ab a b f show ?thesis
    by (simp add: updateWritableTailCache_def Let_def)
next
  case False
  with assms(1) have "tailStart q = None \<and> cachedRange q = (None, None)"
    by (auto simp: wf_def lease_ok_def)
  with False show ?thesis
    by (auto simp: updateWritableTailCache_def)
qed

lemma lease_bytes_length:
  assumes "wf q" shows "length (lease_bytes q) = pending q"
proof (cases "head q \<noteq> [] \<and> \<not> isSharedOne (last (head q))")
  case True
  with assms have lo: "(case cachedRange q of
           (Some f, Some e) \<Rightarrow>
              tailStart q = Some (writableTail (last (head q))) \<and>
              writableTail (last (head q)) \<le> f \<and> f \<le> e \<and> e = capacity (last (head q))
         | _ \<Rightarrow> False)"
    by (simp add: wf_def lease_ok_def)
  obtain a b where ab: "cachedRange q = (a, b)" by (cases "cachedRange q")
  from lo ab obtain f where a: "a = Some f" by (cases a) simp_all
  from lo ab a obtain e where b: "b = Some e" by (cases b) simp_all
  from lo ab a b have ts: "tailStart q = Some (writableTail (last (head q)))"
    and e: "e = capacity (last (head q))" and le: "writableTail (last (head q)) \<le> f" "f \<le> e"
    by simp_all
  from ts ab a le e show ?thesis
    by (simp add: lease_bytes_def pending_def ptr_diff_def capacity_def)
next
  case False
  with assms have "tailStart q = None \<and> cachedRange q = (None, None)"
    by (auto simp: wf_def lease_ok_def)
  then show ?thesis
    by (simp add: lease_bytes_def pending_def ptr_diff_def)
qed

lemma totalLength_content:
  assumes "wf q" shows "totalLength q = of_nat (length (content q))"
proof -
  from assms have "list_all wf_buf (head q)" and lk: "length_ok q" by (simp_all add: wf_def)
  then have "length (chain_data (head q)) = computeChainDataLength (head q)"
    by (simp add: chain_data_length)
  with lk lease_bytes_length [OF assms] show ?thesis
    by (simp add: totalLength_def content_def length_ok_def pending_def)
qed

lemma guard_run:
  assumes "wf q"
  obtains q1 where "flushCache q = Inr q1" "list_all wf_buf (head q1)" "length_ok q1"
    "chain_data (head q1) = content q" "cacheChainLength q1 = cacheChainLength q"
    "updateGuard body q = (fst (body q1), updateWritableTailCache (snd (body q1)))"
proof -
  from flushCache_ok [OF assms] obtain q1 where f: "flushCache q = Inr q1"
    and r: "list_all wf_buf (head q1)" "length_ok q1" "chain_data (head q1) = content q"
      "cacheChainLength q1 = cacheChainLength q"
    by blast
  from f have "updateGuard body q = (fst (body q1), updateWritableTailCache (snd (body q1)))"
    by (simp add: updateGuard_def split: prod.splits)
  with f r that show ?thesis by blast
qed

section \<open>Trimming from the front\<close>

lemma trimStartAtMost_loop_spec:
  "list_all wf_buf (head q) \<Longrightarrow> trimStartAtMost_loop amount q = (amount', q') \<Longrightarrow>
     amount' \<le> amount \<and>
     amount - amount' = min amount (length (chain_data (head q))) \<and>
     chain_data (head q') = drop amount (chain_data (head q)) \<and>
     list_all wf_buf (head q') \<and>
     chainLength q' = chainLength q - of_nat (amount - amount') \<and>
     cacheChainLength q' = cacheChainLength q"
proof (induction amount q arbitrary: amount' q' rule: trimStartAtMost_loop.induct)
  case (1 amount q)
  note wfh = "1.prems"(1) and run = "1.prems"(2)
  show ?case
  proof (cases "amount > 0")
    case False
    with run show ?thesis
      using wfh by (subst (asm) trimStartAtMost_loop.simps) simp
  next
    case pos: True
    show ?thesis
    proof (cases "head q")
      case Nil
      with run pos show ?thesis
        by (subst (asm) trimStartAtMost_loop.simps) (simp add: chain_data_Nil)
    next
      case (Cons h rest)
      with wfh have wh: "wf_buf h" and wr: "list_all wf_buf rest" by simp_all
      have lh: "length (data h) = len h" using wh by (rule data_length)
      show ?thesis
      proof (cases "IOBuf_length h > amount")
        case True
        with run pos Cons have r: "amount' = 0"
          "q' = q\<lparr>head := IOBuf_trimStart amount h # rest,
                  chainLength := chainLength q - of_nat amount\<rparr>"
          by (subst (asm) trimStartAtMost_loop.simps, simp)+
        from True have le: "amount \<le> len h" by (simp add: IOBuf_length_def)
        with r Cons wh wr lh show ?thesis
          by (simp add: chain_data_Cons data_trimStart wf_buf_trimStart)
      next
        case False
        let ?q2 = "q\<lparr>chainLength := chainLength q - of_nat (IOBuf_length h), head := rest\<rparr>"
        from run pos Cons False
        have run2: "trimStartAtMost_loop (amount - IOBuf_length h) ?q2 = (amount', q')"
          by (subst (asm) trimStartAtMost_loop.simps) simp
        from False have ge: "len h \<le> amount" by (simp add: IOBuf_length_def)
        have ih: "amount' \<le> amount - IOBuf_length h \<and>
          amount - IOBuf_length h - amount' =
             min (amount - IOBuf_length h) (length (chain_data (head ?q2))) \<and>
          chain_data (head q') = drop (amount - IOBuf_length h) (chain_data (head ?q2)) \<and>
          list_all wf_buf (head q') \<and>
          chainLength q' = chainLength ?q2 - of_nat (amount - IOBuf_length h - amount') \<and>
          cacheChainLength q' = cacheChainLength ?q2"
          using "1.IH" [OF pos Cons _ _ run2] False wr by simp
        from ih have b1: "amount' \<le> amount - IOBuf_length h"
          and b2: "amount - IOBuf_length h - amount' =
             min (amount - IOBuf_length h) (length (chain_data rest))"
          and b3: "chain_data (head q') = drop (amount - IOBuf_length h) (chain_data rest)"
          and b4: "list_all wf_buf (head q')"
          and b5: "chainLength q' = chainLength q - of_nat (IOBuf_length h)
                      - of_nat (amount - IOBuf_length h - amount')"
          and b6: "cacheChainLength q' = cacheChainLength q"
          by simp_all
        from b1 have a1: "amount' \<le> amount" by arith
        from b1 b2 ge have "amount - amount' = min amount (len h + length (chain_data rest))"
          unfolding IOBuf_length_def by arith
        then have a2: "amount - amount' = min amount (length (chain_data (head q)))"
          by (simp add: Cons chain_data_Cons lh)
        from b3 ge have a3: "chain_data (head q') = drop amount (chain_data (head q))"
          by (simp add: Cons chain_data_Cons lh IOBuf_length_def)
        from b1 ge have "amount - amount' = len h + (amount - len h - amount')"
          by (simp add: IOBuf_length_def)
        then have "(of_nat (amount - amount') :: 64 word) =
             of_nat (len h) + of_nat (amount - len h - amount')"
          by (simp only: of_nat_add)
        with b5 have a5: "chainLength q' = chainLength q - of_nat (amount - amount')"
          by (simp add: IOBuf_length_def)
        from b4 b6 a1 a2 a3 a5 show ?thesis by simp
      qed
    qed
  qed
qed

text \<open>
  C7. On every well-formed queue and for every amount, \<^verbatim>\<open>trimStartAtMost(amount)\<close> returns
  normally; the value returned is the minimum of \<open>amount\<close> and the number of bytes held
  (committed and on lease), exactly that many bytes are removed from the front, and the
  total length decreases by the same number.
\<close>

theorem trimStartAtMost_min:
  assumes "wf q"
  shows "fst (trimStartAtMost amount q) = Inr (min amount (length (content q))) \<and>
         content (snd (trimStartAtMost amount q)) =
            drop (min amount (length (content q))) (content q) \<and>
         totalLength q = of_nat (length (content q)) \<and>
         totalLength (snd (trimStartAtMost amount q)) =
            totalLength q - of_nat (min amount (length (content q))) \<and>
         wf (snd (trimStartAtMost amount q))"
proof -
  let ?body = "\<lambda>q. case trimStartAtMost_loop amount q of
                        (amount', q') \<Rightarrow> (Inr (amount - amount') :: error + nat, q')"
  from guard_run [OF assms, of ?body] obtain q1 where
    q1: "list_all wf_buf (head q1)" "length_ok q1" "chain_data (head q1) = content q"
      "cacheChainLength q1 = cacheChainLength q"
    and g: "updateGuard ?body q = (fst (?body q1), updateWritableTailCache (snd (?body q1)))"
    by blast
  obtain amount' q2 where l: "trimStartAtMost_loop amount q1 = (amount', q2)"
    by (cases "trimStartAtMost_loop amount q1")
  from trimStartAtMost_loop_spec [OF q1(1) l]
  have s1: "amount' \<le> amount"
    and s2: "amount - amount' = min amount (length (content q))"
    and s3: "chain_data (head q2) = drop amount (content q)"
    and s4: "list_all wf_buf (head q2)"
    and s5: "chainLength q2 = chainLength q1 - of_nat (amount - amount')"
    and s6: "cacheChainLength q2 = cacheChainLength q1"
    by (simp_all add: q1(3))
  from g l have res: "trimStartAtMost amount q = (Inr (amount - amount'), updateWritableTailCache q2)"
    by (simp add: trimStartAtMost_def)
  have len2: "computeChainDataLength (head q2) = length (content q) - min amount (length (content q))"
    using chain_data_length [OF s4] s3 by simp
  have len1: "computeChainDataLength (head q1) = length (content q)"
    using chain_data_length [OF q1(1)] q1(3) by simp
  have w2: "(of_nat (length (content q) - min amount (length (content q))) :: 64 word)
     = of_nat (length (content q)) - of_nat (min amount (length (content q)))"
    by simp
  have lk2: "length_ok q2"
    using q1(2) s5 s6 s2 len1 len2 w2 by (simp add: length_ok_def)
  have t: "totalLength q = of_nat (length (content q))"
    by (rule totalLength_content [OF assms])
  have t2: "totalLength (updateWritableTailCache q2) = of_nat (length (content q)) - of_nat (min amount (length (content q)))"
    using totalLength_updateWritableTailCache [OF lk2] len2 w2 by simp
  have d: "drop amount (content q) = drop (min amount (length (content q))) (content q)"
    by (simp add: min_def)
  show ?thesis
    using res s2 s3 t t2 d updateWritableTailCache_wf [OF s4 lk2]
    by (simp add: updateWritableTailCache_content)
qed

theorem trimStartAtMost_min_witness:
  "wf ex_queue \<and> fst (trimStartAtMost 2 ex_queue) = Inr 2 \<and>
   content (snd (trimStartAtMost 2 ex_queue)) = [3]"
proof -
  have w: "wf ex_queue"
    by (simp add: wf_def wf_buf_def lease_ok_def length_ok_def isSharedOne_def writableTail_def
        capacity_def computeChainDataLength_def IOBuf_length_def)
  have c: "content ex_queue = [1, 2, 3]"
    by (simp add: content_def chain_data_def data_def lease_bytes_def pending_def ptr_diff_def)
  from trimStartAtMost_min [OF w, of 2] c w show ?thesis by simp
qed

section \<open>Splitting and strict removal\<close>

lemma appendToChain_nopack: "appendToChain k dst src False = dst @ src"
  by (simp add: appendToChain_def)

lemma cloneOne_data:
  "cloneOne h = (h', c) \<Longrightarrow> data h' = data h \<and> data c = data h \<and> len c = len h \<and> len h' = len h
     \<and> (wf_buf h \<longrightarrow> wf_buf h' \<and> wf_buf c)"
  by (auto simp: cloneOne_def data_def wf_buf_def)

lemma split_loop_spec:
  "list_all wf_buf (head q) \<Longrightarrow> split_loop k n thr result q = (r, q') \<Longrightarrow>
     chain_data (head q') = drop n (chain_data (head q)) \<and>
     list_all wf_buf (head q') \<and>
     chainLength q' = chainLength q - of_nat (min n (length (chain_data (head q)))) \<and>
     cacheChainLength q' = cacheChainLength q \<and>
     (n \<le> length (chain_data (head q)) \<or> \<not> thr \<longrightarrow>
        (\<exists>res. r = Inr res \<and> chain_data res = chain_data result @ take n (chain_data (head q))
            \<and> (list_all wf_buf result \<longrightarrow> list_all wf_buf res))) \<and>
     (length (chain_data (head q)) < n \<longrightarrow> head q' = [] \<and> (thr \<longrightarrow> r = Inl Underflow_error))"
proof (induction k n thr result q arbitrary: r q' rule: split_loop.induct)
  case (1 k n thr result q)
  note wfh = "1.prems"(1) and run = "1.prems"(2)
  show ?case
  proof (cases "n = 0")
    case True
    with run wfh show ?thesis
      by (subst (asm) split_loop.simps) auto
  next
    case pos: False
    show ?thesis
    proof (cases "head q")
      case Nil
      with run pos show ?thesis
        by (subst (asm) split_loop.simps) (auto simp: chain_data_Nil split: if_splits)
    next
      case (Cons h rest)
      with wfh have wh: "wf_buf h" and wr: "list_all wf_buf rest" by simp_all
      have lh: "length (data h) = len h" using wh by (rule data_length)
      show ?thesis
      proof (cases "IOBuf_length h \<le> n")
        case False
        obtain h' c where cl: "cloneOne h = (h', c)" by (cases "cloneOne h")
        note cd = cloneOne_data [OF cl]
        from run pos Cons False cl have r: "r = Inr (result @ [IOBuf_trimEnd (len c - n) c])"
          "q' = q\<lparr>head := IOBuf_trimStart n h' # rest, chainLength := chainLength q - of_nat n\<rparr>"
          by (subst (asm) split_loop.simps, simp add: appendToChain_nopack IOBuf_length_def)+
        from False have le: "n \<le> len h" by (simp add: IOBuf_length_def)
        have d1: "data (IOBuf_trimEnd (len c - n) c) = take n (data h)"
          using cd le by (simp add: data_trimEnd)
        have d2: "data (IOBuf_trimStart n h') = drop n (data h)"
          using cd by (simp add: data_trimStart)
        have w1: "wf_buf (IOBuf_trimEnd (len c - n) c)" "wf_buf (IOBuf_trimStart n h')"
          using cd wh le by (simp_all add: wf_buf_trimEnd wf_buf_trimStart)
        from r Cons wr lh le d1 d2 w1 show ?thesis
          by (simp add: chain_data_Cons chain_data_append chain_data_Nil min_def)
      next
        case True
        let ?q2 = "q\<lparr>chainLength := chainLength q - of_nat (IOBuf_length h), head := rest\<rparr>"
        let ?res2 = "result @ [h]"
        from run pos Cons True
        have run2: "split_loop k (n - IOBuf_length h) thr (appendToChain k result [h] False) ?q2
            = (r, q')"
          by (subst (asm) split_loop.simps) simp
        from True have ge: "len h \<le> n" by (simp add: IOBuf_length_def)
        have ih: "chain_data (head q') = drop (n - len h) (chain_data rest) \<and>
          list_all wf_buf (head q') \<and>
          chainLength q' = chainLength q - of_nat (len h)
               - of_nat (min (n - len h) (length (chain_data rest))) \<and>
          cacheChainLength q' = cacheChainLength q \<and>
          (n - len h \<le> length (chain_data rest) \<or> \<not> thr \<longrightarrow>
            (\<exists>res. r = Inr res \<and>
               chain_data res = chain_data ?res2 @ take (n - len h) (chain_data rest)
               \<and> (list_all wf_buf ?res2 \<longrightarrow> list_all wf_buf res))) \<and>
          (length (chain_data rest) < n - len h \<longrightarrow> head q' = [] \<and> (thr \<longrightarrow> r = Inl Underflow_error))"
          using "1.IH"(1) [OF pos Cons True _ run2] wr
          by (simp add: appendToChain_nopack IOBuf_length_def)
        then have b1: "chain_data (head q') = drop (n - len h) (chain_data rest)"
          and b2: "list_all wf_buf (head q')"
          and b3: "chainLength q' = chainLength q - of_nat (len h)
               - of_nat (min (n - len h) (length (chain_data rest)))"
          and b4: "cacheChainLength q' = cacheChainLength q"
          and b5: "n - len h \<le> length (chain_data rest) \<or> \<not> thr \<longrightarrow>
            (\<exists>res. r = Inr res \<and>
               chain_data res = chain_data ?res2 @ take (n - len h) (chain_data rest)
               \<and> (list_all wf_buf ?res2 \<longrightarrow> list_all wf_buf res))"
          and b6: "length (chain_data rest) < n - len h \<longrightarrow> head q' = [] \<and> (thr \<longrightarrow> r = Inl Underflow_error)"
          by blast+
        have cdq: "chain_data (head q) = data h @ chain_data rest"
          by (simp add: Cons chain_data_Cons)
        from b1 ge have a1: "chain_data (head q') = drop n (chain_data (head q))"
          by (simp add: cdq lh)
        from ge have "min n (len h + length (chain_data rest)) =
            len h + min (n - len h) (length (chain_data rest))" by arith
        then have "(of_nat (min n (length (chain_data (head q)))) :: 64 word) =
            of_nat (len h) + of_nat (min (n - len h) (length (chain_data rest)))"
          by (simp only: cdq length_append lh of_nat_add)
        with b3 have a3: "chainLength q' = chainLength q - of_nat (min n (length (chain_data (head q))))"
          by simp
        from ge have e1: "(n \<le> length (chain_data (head q))) = (n - len h \<le> length (chain_data rest))"
          by (simp add: cdq lh) arith
        from ge have e2: "(length (chain_data (head q)) < n) = (length (chain_data rest) < n - len h)"
          by (simp add: cdq lh) arith
        from ge have e3: "take n (chain_data (head q)) = data h @ take (n - len h) (chain_data rest)"
          by (simp add: cdq lh)
        from b5 wh have a5: "n \<le> length (chain_data (head q)) \<or> \<not> thr \<longrightarrow>
           (\<exists>res. r = Inr res \<and> chain_data res = chain_data result @ take n (chain_data (head q))
            \<and> (list_all wf_buf result \<longrightarrow> list_all wf_buf res))"
          unfolding e1 e3 by (simp add: chain_data_append chain_data_Cons chain_data_Nil)
        from b6 have a6: "length (chain_data (head q)) < n \<longrightarrow> head q' = [] \<and> (thr \<longrightarrow> r = Inl Underflow_error)"
          unfolding e2 .
        from a1 b2 a3 b4 a5 a6 show ?thesis by blast
      qed
    qed
  qed
qed

lemma trimStartAtMost_loop_drain:
  "list_all wf_buf (head q) \<Longrightarrow> trimStartAtMost_loop amount q = (amount', q') \<Longrightarrow>
     length (chain_data (head q)) < amount \<Longrightarrow> head q' = []"
proof (induction amount q arbitrary: amount' q' rule: trimStartAtMost_loop.induct)
  case (1 amount q)
  note wfh = "1.prems"(1) and run = "1.prems"(2) and big = "1.prems"(3)
  from big have pos: "amount > 0" by simp
  show ?case
  proof (cases "head q")
    case Nil
    with run pos show ?thesis
      by (subst (asm) trimStartAtMost_loop.simps) simp
  next
    case (Cons h rest)
    with wfh have wh: "wf_buf h" and wr: "list_all wf_buf rest" by simp_all
    have lh: "length (data h) = len h" using wh by (rule data_length)
    from big have nb: "\<not> amount < IOBuf_length h" and big2: "length (chain_data rest) < amount - IOBuf_length h"
      by (simp_all add: Cons chain_data_Cons lh IOBuf_length_def)
    let ?q2 = "q\<lparr>chainLength := chainLength q - of_nat (IOBuf_length h), head := rest\<rparr>"
    from run pos Cons nb
    have run2: "trimStartAtMost_loop (amount - IOBuf_length h) ?q2 = (amount', q')"
      by (subst (asm) trimStartAtMost_loop.simps) simp
    show ?thesis
      using "1.IH" [OF pos Cons nb _ run2] wr big2 by simp
  qed
qed

lemma trimEndAtMost_loop_spec:
  "list_all wf_buf (head q) \<Longrightarrow> trimEndAtMost_loop amount q = (amount', q') \<Longrightarrow>
     amount' \<le> amount \<and>
     amount - amount' = min amount (length (chain_data (head q))) \<and>
     chain_data (head q') = take (length (chain_data (head q)) - amount) (chain_data (head q)) \<and>
     list_all wf_buf (head q') \<and>
     chainLength q' = chainLength q - of_nat (amount - amount') \<and>
     cacheChainLength q' = cacheChainLength q \<and>
     (length (chain_data (head q)) < amount \<longrightarrow> head q' = [])"
proof (induction amount q arbitrary: amount' q' rule: trimEndAtMost_loop.induct)
  case (1 amount q)
  note wfh = "1.prems"(1) and run = "1.prems"(2)
  show ?case
  proof (cases "amount > 0")
    case False
    with run show ?thesis
      using wfh by (subst (asm) trimEndAtMost_loop.simps) simp
  next
    case pos: True
    show ?thesis
    proof (cases "head q = []")
      case True
      with run pos show ?thesis
        by (subst (asm) trimEndAtMost_loop.simps) (simp add: chain_data_Nil)
    next
      case ne: False
      define t where "t = last (head q)"
      define bl where "bl = butlast (head q)"
      from ne have hq: "head q = bl @ [t]" by (simp add: t_def bl_def)
      with wfh have wt: "wf_buf t" and wb: "list_all wf_buf bl" by simp_all
      have lt: "length (data t) = len t" using wt by (rule data_length)
      have cdq: "chain_data (head q) = chain_data bl @ data t"
        by (simp add: hq chain_data_append chain_data_Cons chain_data_Nil)
      show ?thesis
      proof (cases "IOBuf_length t > amount")
        case True
        with run pos ne have r: "amount' = 0"
          "q' = q\<lparr>head := bl @ [IOBuf_trimEnd amount t],
                  chainLength := chainLength q - of_nat amount\<rparr>"
          by (subst (asm) trimEndAtMost_loop.simps, simp add: Let_def t_def bl_def)+
        from True have le: "amount < len t" by (simp add: IOBuf_length_def)
        have "chain_data (bl @ [IOBuf_trimEnd amount t]) = chain_data bl @ take (len t - amount) (data t)"
          by (simp add: chain_data_append chain_data_Cons chain_data_Nil data_trimEnd)
        with r wt wb lt le show ?thesis
          by (simp add: cdq wf_buf_trimEnd)
      next
        case False
        let ?q2 = "q\<lparr>chainLength := chainLength q - of_nat (IOBuf_length t), head := bl\<rparr>"
        from run pos ne False
        have run2: "trimEndAtMost_loop (amount - IOBuf_length t) ?q2 = (amount', q')"
          by (subst (asm) trimEndAtMost_loop.simps) (simp add: Let_def t_def bl_def)
        from False have ge: "len t \<le> amount" by (simp add: IOBuf_length_def)
        have ih: "amount' \<le> amount - IOBuf_length t \<and>
          amount - IOBuf_length t - amount' =
             min (amount - IOBuf_length t) (length (chain_data (head ?q2))) \<and>
          chain_data (head q') = take (length (chain_data (head ?q2)) - (amount - IOBuf_length t))
             (chain_data (head ?q2)) \<and>
          list_all wf_buf (head q') \<and>
          chainLength q' = chainLength ?q2 - of_nat (amount - IOBuf_length t - amount') \<and>
          cacheChainLength q' = cacheChainLength ?q2 \<and>
          (length (chain_data (head ?q2)) < amount - IOBuf_length t \<longrightarrow> head q' = [])"
          using "1.IH" [OF pos ne refl _ _ run2 [unfolded bl_def t_def]] False wb
          by (simp add: t_def bl_def)
        then have b1: "amount' \<le> amount - IOBuf_length t"
          and b2: "amount - IOBuf_length t - amount' =
             min (amount - IOBuf_length t) (length (chain_data bl))"
          and b3: "chain_data (head q') = take (length (chain_data bl) - (amount - IOBuf_length t))
             (chain_data bl)"
          and b4: "list_all wf_buf (head q')"
          and b5: "chainLength q' = chainLength q - of_nat (IOBuf_length t)
                      - of_nat (amount - IOBuf_length t - amount')"
          and b6: "cacheChainLength q' = cacheChainLength q"
          and b7: "length (chain_data bl) < amount - IOBuf_length t \<longrightarrow> head q' = []"
          by simp_all
        from b1 have a1: "amount' \<le> amount" by arith
        from b1 b2 ge have "amount - amount' = min amount (length (chain_data bl) + len t)"
          unfolding IOBuf_length_def by arith
        then have a2: "amount - amount' = min amount (length (chain_data (head q)))"
          by (simp add: cdq lt)
        from ge have k: "length (chain_data bl) + len t - amount
            = length (chain_data bl) - (amount - len t)"
          by arith
        from ge have "length (chain_data bl) + len t - amount - length (chain_data bl) = 0"
          by arith
        then have "take (length (chain_data bl) + len t - amount) (chain_data bl @ data t)
            = take (length (chain_data bl) + len t - amount) (chain_data bl)"
          by (simp only: take_append take_0 append_Nil2)
        then have "take (length (chain_data (head q)) - amount) (chain_data (head q))
            = take (length (chain_data bl) - (amount - len t)) (chain_data bl)"
          by (simp only: cdq length_append lt k)
        with b3 have a3: "chain_data (head q') =
            take (length (chain_data (head q)) - amount) (chain_data (head q))"
          by (simp only: IOBuf_length_def)
        from b1 ge have "amount - amount' = len t + (amount - len t - amount')"
          by (simp add: IOBuf_length_def)
        then have "(of_nat (amount - amount') :: 64 word) =
             of_nat (len t) + of_nat (amount - len t - amount')"
          by (simp only: of_nat_add)
        with b5 have a5: "chainLength q' = chainLength q - of_nat (amount - amount')"
          by (simp add: IOBuf_length_def)
        from ge have e2: "(length (chain_data (head q)) < amount) =
            (length (chain_data bl) < amount - IOBuf_length t)"
          by (simp add: cdq lt IOBuf_length_def) arith
        from b7 have a7: "length (chain_data (head q)) < amount \<longrightarrow> head q' = []"
          unfolding e2 .
        from b4 b6 a1 a2 a3 a5 a7 show ?thesis by simp
      qed
    qed
  qed
qed

lemma ex_queue_wf: "wf ex_queue"
  by (simp add: wf_def wf_buf_def lease_ok_def length_ok_def isSharedOne_def writableTail_def
      capacity_def computeChainDataLength_def IOBuf_length_def)

lemma ex_queue_content: "content ex_queue = [1, 2, 3]"
  by (simp add: content_def chain_data_def data_def lease_bytes_def pending_def ptr_diff_def)

lemma length_ok_remove:
  assumes "length_ok q1" "list_all wf_buf (head q1)" "list_all wf_buf (head q2)"
    "cacheChainLength q2 = cacheChainLength q1"
    "chainLength q2 = chainLength q1 - of_nat m"
    "m \<le> length (chain_data (head q1))"
    "length (chain_data (head q2)) = length (chain_data (head q1)) - m"
  shows "length_ok q2"
proof -
  have l1: "computeChainDataLength (head q1) = length (chain_data (head q1))"
    using chain_data_length [OF assms(2)] by simp
  have l2: "computeChainDataLength (head q2) = length (chain_data (head q1)) - m"
    using chain_data_length [OF assms(3)] assms(7) by simp
  have "(of_nat (length (chain_data (head q1)) - m) :: 64 word)
      = of_nat (length (chain_data (head q1))) - of_nat m"
    using assms(6) by simp
  with assms(1,4,5) l1 l2 show ?thesis
    by (simp add: length_ok_def)
qed

lemma guard_exit:
  assumes "list_all wf_buf (head q2)" "length_ok q2"
  shows "wf (updateWritableTailCache q2)"
    "content (updateWritableTailCache q2) = chain_data (head q2)"
    "totalLength (updateWritableTailCache q2) = of_nat (length (chain_data (head q2)))"
    "head (updateWritableTailCache q2) = head q2"
  using assms updateWritableTailCache_wf updateWritableTailCache_content
    totalLength_updateWritableTailCache chain_data_length updateWritableTailCache_fields(1)
  by simp_all

text \<open>The outcome of \<^verbatim>\<open>split\<close> on a well-formed queue, in terms of the loop run on the
  committed queue.\<close>

lemma split_run:
  assumes "wf q"
  obtains q1 r q2 where
    "list_all wf_buf (head q1)" "length_ok q1" "chain_data (head q1) = content q"
    "cacheChainLength q1 = cacheChainLength q"
    "map capacity (head q1) = map capacity (head q)"
    "tailStart q = fst (cachedRange q) \<longrightarrow> q1 = q"
    "split_loop k n thr [] q1 = (r, q2)"
    "split k n thr q =
       (case r of Inl e \<Rightarrow> Inl e | Inr res \<Rightarrow> Inr (if res = [] then [create 0] else res),
        updateWritableTailCache q2)"
proof -
  from flushCache_ok [OF assms] obtain q1 where f: "flushCache q = Inr q1"
    and p: "list_all wf_buf (head q1)" "length_ok q1" "chain_data (head q1) = content q"
      "cacheChainLength q1 = cacheChainLength q" "map capacity (head q1) = map capacity (head q)"
      "tailStart q = fst (cachedRange q) \<longrightarrow> q1 = q"
    by blast
  obtain r q2 where l: "split_loop k n thr [] q1 = (r, q2)"
    by (cases "split_loop k n thr [] q1")
  from f l have "split k n thr q =
       (case r of Inl e \<Rightarrow> Inl e | Inr res \<Rightarrow> Inr (if res = [] then [create 0] else res),
        updateWritableTailCache q2)"
    by (simp add: split_def updateGuard_def split: sum.splits)
  with p l that show ?thesis by blast
qed

lemma split_underflow:
  assumes "wf q" and "length (content q) < n"
  shows "fst (split k n True q) = Inl Underflow_error \<and>
         head (snd (split k n True q)) = [] \<and>
         content (snd (split k n True q)) = [] \<and>
         totalLength (snd (split k n True q)) = 0 \<and>
         wf (snd (split k n True q))"
proof -
  from split_run [OF assms(1), of k n True] obtain q1 r q2 where
    p: "list_all wf_buf (head q1)" "length_ok q1" "chain_data (head q1) = content q"
    and l: "split_loop k n True [] q1 = (r, q2)"
    and s: "split k n True q =
       (case r of Inl e \<Rightarrow> Inl e | Inr res \<Rightarrow> Inr (if res = [] then [create 0] else res),
        updateWritableTailCache q2)"
    by blast
  from split_loop_spec [OF p(1) l] assms(2) p(3)
  have r: "r = Inl Underflow_error" and h: "head q2 = []"
    and c: "chainLength q2 = chainLength q1 - of_nat (length (chain_data (head q1)))"
      "cacheChainLength q2 = cacheChainLength q1"
    by (simp_all add: min_def)
  have lk: "length_ok q2"
    by (rule length_ok_remove [OF p(2) p(1) _ c(2) c(1)]) (simp_all add: h chain_data_Nil)
  have w: "list_all wf_buf (head q2)" by (simp add: h)
  from guard_exit [OF w lk] s r h show ?thesis
    by (simp add: chain_data_Nil)
qed


lemma trimStart_underflow:
  assumes "wf q" and "length (content q) < amount"
  shows "fst (trimStart amount q) = Inl Underflow_error \<and>
         head (snd (trimStart amount q)) = [] \<and>
         content (snd (trimStart amount q)) = [] \<and>
         totalLength (snd (trimStart amount q)) = 0 \<and>
         wf (snd (trimStart amount q))"
proof -
  let ?body = "\<lambda>q. case trimStartAtMost_loop amount q of
                        (amount', q') \<Rightarrow> (Inr (amount - amount') :: error + nat, q')"
  from guard_run [OF assms(1), of ?body] obtain q1 where
    p: "list_all wf_buf (head q1)" "length_ok q1" "chain_data (head q1) = content q"
    and g: "updateGuard ?body q = (fst (?body q1), updateWritableTailCache (snd (?body q1)))"
    by blast
  obtain amount' q2 where l: "trimStartAtMost_loop amount q1 = (amount', q2)"
    by (cases "trimStartAtMost_loop amount q1")
  from trimStartAtMost_loop_spec [OF p(1) l] assms(2) p(3)
  have a: "amount - amount' = length (content q)"
    and c: "chainLength q2 = chainLength q1 - of_nat (length (chain_data (head q1)))"
      "cacheChainLength q2 = cacheChainLength q1"
    by (simp_all add: min_def)
  from trimStartAtMost_loop_drain [OF p(1) l] assms(2) p(3) have h: "head q2 = []" by simp
  have lk: "length_ok q2"
    by (rule length_ok_remove [OF p(2) p(1) _ c(2) c(1)]) (simp_all add: h chain_data_Nil)
  have w: "list_all wf_buf (head q2)" by (simp add: h)
  from g l a have "trimStartAtMost amount q = (Inr (length (content q)), updateWritableTailCache q2)"
    by (simp add: trimStartAtMost_def)
  with assms(2) have "trimStart amount q = (Inl Underflow_error, updateWritableTailCache q2)"
    by (simp add: trimStart_def)
  with guard_exit [OF w lk] h show ?thesis
    by (simp add: chain_data_Nil)
qed

lemma trimEnd_underflow:
  assumes "wf q" and "length (content q) < amount"
  shows "fst (trimEnd amount q) = Inl Underflow_error \<and>
         head (snd (trimEnd amount q)) = [] \<and>
         content (snd (trimEnd amount q)) = [] \<and>
         totalLength (snd (trimEnd amount q)) = 0 \<and>
         wf (snd (trimEnd amount q))"
proof -
  let ?body = "\<lambda>q. case trimEndAtMost_loop amount q of
                        (amount', q') \<Rightarrow> (Inr (amount - amount') :: error + nat, q')"
  from guard_run [OF assms(1), of ?body] obtain q1 where
    p: "list_all wf_buf (head q1)" "length_ok q1" "chain_data (head q1) = content q"
    and g: "updateGuard ?body q = (fst (?body q1), updateWritableTailCache (snd (?body q1)))"
    by blast
  obtain amount' q2 where l: "trimEndAtMost_loop amount q1 = (amount', q2)"
    by (cases "trimEndAtMost_loop amount q1")
  from trimEndAtMost_loop_spec [OF p(1) l] assms(2) p(3)
  have a: "amount - amount' = length (content q)"
    and c: "chainLength q2 = chainLength q1 - of_nat (length (chain_data (head q1)))"
      "cacheChainLength q2 = cacheChainLength q1"
    and h: "head q2 = []"
    by (simp_all add: min_def)
  have lk: "length_ok q2"
    by (rule length_ok_remove [OF p(2) p(1) _ c(2) c(1)]) (simp_all add: h chain_data_Nil)
  have w: "list_all wf_buf (head q2)" by (simp add: h)
  from g l a have "trimEndAtMost amount q = (Inr (length (content q)), updateWritableTailCache q2)"
    by (simp add: trimEndAtMost_def)
  with assms(2) have "trimEnd amount q = (Inl Underflow_error, updateWritableTailCache q2)"
    by (simp add: trimEnd_def)
  with guard_exit [OF w lk] h show ?thesis
    by (simp add: chain_data_Nil)
qed

lemma create_0: "chain_data [create 0] = []" "IOBuf_length (create 0) = 0" "wf_buf (create 0)"
  "\<not> isSharedOne (create 0)" "capacity (create 0) = 0"
  by (simp_all add: chain_data_def data_def create_def IOBuf_length_def wf_buf_def isSharedOne_def
      capacity_def)

lemma split_loop_trivial:
  "n = 0 \<or> (head q = [] \<and> \<not> thr) \<Longrightarrow> split_loop k n thr result q = (Inr result, q)"
  by (subst split_loop.simps) auto

text \<open>
  C1, as stated, fails. On the queue \<open>ex_queue\<close>, which holds three bytes, each of
  \<^verbatim>\<open>split(5, true)\<close>, \<^verbatim>\<open>trimStart(5)\<close> and \<^verbatim>\<open>trimEnd(5)\<close> raises the underflow error,
  and the queue it leaves behind is not the queue it was given.
\<close>

theorem strict_underflow_not_unchanged:
  "fst (split 4096 5 True ex_queue) = Inl Underflow_error \<and>
   snd (split 4096 5 True ex_queue) \<noteq> ex_queue \<and>
   fst (trimStart 5 ex_queue) = Inl Underflow_error \<and>
   snd (trimStart 5 ex_queue) \<noteq> ex_queue \<and>
   fst (trimEnd 5 ex_queue) = Inl Underflow_error \<and>
   snd (trimEnd 5 ex_queue) \<noteq> ex_queue"
proof -
  have l: "length (content ex_queue) < 5" by (simp add: ex_queue_content)
  have "head (snd (split 4096 5 True ex_queue)) \<noteq> head ex_queue"
    "head (snd (trimStart 5 ex_queue)) \<noteq> head ex_queue"
    "head (snd (trimEnd 5 ex_queue)) \<noteq> head ex_queue"
    using split_underflow [OF ex_queue_wf l, of 4096] trimStart_underflow [OF ex_queue_wf l]
      trimEnd_underflow [OF ex_queue_wf l]
    by simp_all
  then have "snd (split 4096 5 True ex_queue) \<noteq> ex_queue"
    "snd (trimStart 5 ex_queue) \<noteq> ex_queue" "snd (trimEnd 5 ex_queue) \<noteq> ex_queue"
    by metis+
  then show ?thesis
    using split_underflow [OF ex_queue_wf l, of 4096] trimStart_underflow [OF ex_queue_wf l]
      trimEnd_underflow [OF ex_queue_wf l]
    by simp
qed

text \<open>
  C1, amended. A strict removal that asks for more bytes than a well-formed queue holds
  raises the underflow error only after its loop has released every node: the queue is
  left with an empty chain, no content and total length 0. (It is the state before the
  call only when the chain was empty already.)
\<close>

theorem strict_underflow_drains:
  assumes "wf q" and "length (content q) < n"
  shows "(fst (split k n True q) = Inl Underflow_error \<and>
          head (snd (split k n True q)) = [] \<and>
          content (snd (split k n True q)) = [] \<and>
          totalLength (snd (split k n True q)) = 0) \<and>
         (fst (trimStart n q) = Inl Underflow_error \<and>
          head (snd (trimStart n q)) = [] \<and>
          content (snd (trimStart n q)) = [] \<and>
          totalLength (snd (trimStart n q)) = 0) \<and>
         (fst (trimEnd n q) = Inl Underflow_error \<and>
          head (snd (trimEnd n q)) = [] \<and>
          content (snd (trimEnd n q)) = [] \<and>
          totalLength (snd (trimEnd n q)) = 0)"
  using split_underflow [OF assms, of k] trimStart_underflow [OF assms] trimEnd_underflow [OF assms]
  by simp

theorem strict_underflow_drains_witness:
  "wf ex_queue \<and> length (content ex_queue) < 5 \<and>
   fst (split 4096 5 True ex_queue) = Inl Underflow_error \<and>
   head (snd (split 4096 5 True ex_queue)) = [] \<and>
   head (snd (trimStart 5 ex_queue)) = [] \<and>
   head (snd (trimEnd 5 ex_queue)) = []"
proof -
  have l: "length (content ex_queue) < 5" by (simp add: ex_queue_content)
  from strict_underflow_drains [OF ex_queue_wf l, of 4096] ex_queue_wf l show ?thesis by simp
qed

text \<open>
  C4. On a well-formed queue and for every \<open>n\<close> up to the number of bytes held,
  \<^verbatim>\<open>split(n, true)\<close> returns a chain whose data is exactly the first \<open>n\<close> bytes, the queue
  keeps the rest, and the prefix followed by the rest is the content before the call.
  \<^verbatim>\<open>split(0, _)\<close> returns a single empty node, keeps the content, the total length and the
  nodes of the queue; when no written bytes are on lease the queue is left identical.
\<close>

theorem split_prefix:
  assumes "wf q"
  shows "(n \<le> length (content q) \<longrightarrow>
            (\<exists>res. fst (split k n True q) = Inr res \<and>
                   chain_data res = take n (content q) \<and>
                   length (chain_data res) = n \<and>
                   content (snd (split k n True q)) = drop n (content q) \<and>
                   chain_data res @ content (snd (split k n True q)) = content q \<and>
                   totalLength (snd (split k n True q)) = totalLength q - of_nat n \<and>
                   wf (snd (split k n True q)))) \<and>
         fst (split k 0 thr q) = Inr [create 0] \<and>
         chain_data [create 0] = [] \<and>
         content (snd (split k 0 thr q)) = content q \<and>
         totalLength (snd (split k 0 thr q)) = totalLength q \<and>
         map capacity (head (snd (split k 0 thr q))) = map capacity (head q) \<and>
         (tailStart q = fst (cachedRange q) \<longrightarrow> snd (split k 0 thr q) = q)"
proof -
  have A: "\<exists>res. fst (split k n True q) = Inr res \<and>
                   chain_data res = take n (content q) \<and>
                   length (chain_data res) = n \<and>
                   content (snd (split k n True q)) = drop n (content q) \<and>
                   chain_data res @ content (snd (split k n True q)) = content q \<and>
                   totalLength (snd (split k n True q)) = totalLength q - of_nat n \<and>
                   wf (snd (split k n True q))"
    if le: "n \<le> length (content q)"
  proof -
    from split_run [OF assms, of k n True] obtain q1 r q2 where
      p: "list_all wf_buf (head q1)" "length_ok q1" "chain_data (head q1) = content q"
      and l: "split_loop k n True [] q1 = (r, q2)"
      and s: "split k n True q =
         (case r of Inl e \<Rightarrow> Inl e | Inr res \<Rightarrow> Inr (if res = [] then [create 0] else res),
          updateWritableTailCache q2)"
      by blast
    from split_loop_spec [OF p(1) l] le p(3)
    obtain res where r: "r = Inr res" and cr: "chain_data res = take n (content q)"
      and d: "chain_data (head q2) = drop n (content q)"
      and w: "list_all wf_buf (head q2)"
      and c: "chainLength q2 = chainLength q1 - of_nat n" "cacheChainLength q2 = cacheChainLength q1"
      by (auto simp: chain_data_Nil min_def)
    let ?res = "if res = [] then [create 0] else res"
    have cr': "chain_data ?res = take n (content q)"
      using cr by (auto simp: create_0 chain_data_Nil)
    have lk: "length_ok q2"
      by (rule length_ok_remove [OF p(2) p(1) w c(2) c(1)]) (simp_all add: p(3) d le)
    have t: "totalLength (updateWritableTailCache q2) = totalLength q - of_nat n"
      using guard_exit(3) [OF w lk] totalLength_content [OF assms] d le
      by simp
    from s r have "fst (split k n True q) = Inr ?res"
      "snd (split k n True q) = updateWritableTailCache q2" by simp_all
    with cr' guard_exit(1,2) [OF w lk] d t le show ?thesis
      by simp
  qed
  have B: "fst (split k 0 thr q) = Inr [create 0] \<and>
         content (snd (split k 0 thr q)) = content q \<and>
         totalLength (snd (split k 0 thr q)) = totalLength q \<and>
         map capacity (head (snd (split k 0 thr q))) = map capacity (head q) \<and>
         (tailStart q = fst (cachedRange q) \<longrightarrow> snd (split k 0 thr q) = q)"
  proof -
    from split_run [OF assms, of k 0 thr] obtain q1 r q2 where
      p: "list_all wf_buf (head q1)" "length_ok q1" "chain_data (head q1) = content q"
        "map capacity (head q1) = map capacity (head q)"
        "tailStart q = fst (cachedRange q) \<longrightarrow> q1 = q"
      and l: "split_loop k 0 thr [] q1 = (r, q2)"
      and s: "split k 0 thr q =
         (case r of Inl e \<Rightarrow> Inl e | Inr res \<Rightarrow> Inr (if res = [] then [create 0] else res),
          updateWritableTailCache q2)"
      by blast
    from l have r: "r = Inr []" "q2 = q1" by (simp_all add: split_loop_trivial)
    from s r have e: "fst (split k 0 thr q) = Inr [create 0]"
      "snd (split k 0 thr q) = updateWritableTailCache q1" by simp_all
    have i: "tailStart q = fst (cachedRange q) \<longrightarrow> updateWritableTailCache q1 = q"
      using p(5) updateWritableTailCache_id [OF assms] by auto
    from e i guard_exit [OF p(1,2)] p(3,4) totalLength_content [OF assms] show ?thesis
      by simp
  qed
  from A B show ?thesis by (simp add: create_0)
qed

theorem split_prefix_witness:
  "wf ex_queue \<and> (2::nat) \<le> length (content ex_queue) \<and>
   tailStart ex_queue = fst (cachedRange ex_queue) \<and>
   (\<exists>res. fst (split 4096 2 True ex_queue) = Inr res \<and> chain_data res = [1, 2]) \<and>
   content (snd (split 4096 2 True ex_queue)) = [3] \<and>
   snd (split 4096 0 True ex_queue) = ex_queue"
proof -
  have l: "(2::nat) \<le> length (content ex_queue)" by (simp add: ex_queue_content)
  have t: "tailStart ex_queue = fst (cachedRange ex_queue)" by simp
  note T = split_prefix [OF ex_queue_wf, of 2 4096 True]
  from T l obtain res where "fst (split 4096 2 True ex_queue) = Inr res"
    "chain_data res = take 2 (content ex_queue)"
    "content (snd (split 4096 2 True ex_queue)) = drop 2 (content ex_queue)"
    by blast
  then have a: "\<exists>res. fst (split 4096 2 True ex_queue) = Inr res \<and> chain_data res = [1, 2]"
    and b: "content (snd (split 4096 2 True ex_queue)) = [3]"
    by (simp_all add: ex_queue_content)
  from T t have c: "snd (split 4096 0 True ex_queue) = ex_queue" by blast
  from a b c l t ex_queue_wf show ?thesis by blast
qed

text \<open>
  C10. \<^verbatim>\<open>split\<close> never returns a null chain: what it returns is never the empty list; it
  does return when the mode is not strict or enough bytes are held; and when \<open>n = 0\<close>, or
  the chain is empty in non-strict mode, the result is the freshly created node
  \<open>create 0\<close>, which is unshared and has length 0.
\<close>

theorem split_never_null:
  assumes "wf q"
  shows "(\<forall>res q'. split k n thr q = (Inr res, q') \<longrightarrow> res \<noteq> []) \<and>
         (\<not> thr \<or> n \<le> length (content q) \<longrightarrow>
             (\<exists>res. fst (split k n thr q) = Inr res \<and> res \<noteq> [])) \<and>
         (n = 0 \<or> (head q = [] \<and> \<not> thr) \<longrightarrow> fst (split k n thr q) = Inr [create 0]) \<and>
         IOBuf_length (create 0) = 0 \<and> wf_buf (create 0) \<and> \<not> isSharedOne (create 0)"
proof -
  from split_run [OF assms, of k n thr] obtain q1 r q2 where
    p: "list_all wf_buf (head q1)" "chain_data (head q1) = content q"
      "map capacity (head q1) = map capacity (head q)"
    and l: "split_loop k n thr [] q1 = (r, q2)"
    and s: "split k n thr q =
       (case r of Inl e \<Rightarrow> Inl e | Inr res \<Rightarrow> Inr (if res = [] then [create 0] else res),
        updateWritableTailCache q2)"
    by blast
  have a: "\<forall>res q'. split k n thr q = (Inr res, q') \<longrightarrow> res \<noteq> []"
    using s by (auto split: sum.splits if_splits)
  have b: "\<not> thr \<or> n \<le> length (content q) \<longrightarrow>
             (\<exists>res. fst (split k n thr q) = Inr res \<and> res \<noteq> [])"
  proof
    assume "\<not> thr \<or> n \<le> length (content q)"
    with split_loop_spec [OF p(1) l] p(2) obtain res where "r = Inr res" by auto
    with s show "\<exists>res. fst (split k n thr q) = Inr res \<and> res \<noteq> []" by simp
  qed
  have c: "n = 0 \<or> (head q = [] \<and> \<not> thr) \<longrightarrow> fst (split k n thr q) = Inr [create 0]"
  proof
    assume h: "n = 0 \<or> (head q = [] \<and> \<not> thr)"
    from p(3) have "head q = [] \<Longrightarrow> head q1 = []" by simp
    with h have "n = 0 \<or> (head q1 = [] \<and> \<not> thr)" by blast
    from split_loop_trivial [OF this, of k "[]"] l have "r = Inr []" by simp
    with s show "fst (split k n thr q) = Inr [create 0]" by simp
  qed
  from a b c show ?thesis by (simp add: create_0)
qed

theorem split_never_null_witness:
  "wf ex_queue \<and> (\<exists>res. fst (split 4096 0 False ex_queue) = Inr res \<and> res \<noteq> []) \<and>
   fst (split 4096 0 False ex_queue) = Inr [create 0] \<and>
   wf (IOBufQueue_new True) \<and>
   fst (split 4096 7 False (IOBufQueue_new True)) = Inr [create 0]"
proof -
  have w: "wf (IOBufQueue_new True)"
    by (simp add: wf_def IOBufQueue_new_def lease_ok_def length_ok_def computeChainDataLength_def)
  have h: "head (IOBufQueue_new True) = []" by (simp add: IOBufQueue_new_def)
  from split_never_null [OF ex_queue_wf, of 4096 0 False]
    split_never_null [OF w, of 4096 7 False] ex_queue_wf w h
  show ?thesis by simp
qed

section \<open>Draining the queue\<close>

lemma shared_when_reached_cong:
  "(\<forall>s\<in>set ss. r1 s = r2 s) \<Longrightarrow> shared_when_reached r1 ss = shared_when_reached r2 ss"
  by (induction ss arbitrary: r1 r2) (simp_all add: release_def)

lemma shared_when_reached_length: "length (shared_when_reached refs ss) = length ss"
  by (induction ss arbitrary: refs) simp_all

lemma shared_when_reached_nth:
  "i < length ss \<Longrightarrow>
     shared_when_reached refs ss ! i = (1 < refs (ss ! i) - count_list (take i ss) (ss ! i))"
proof (induction ss arbitrary: refs i)
  case Nil
  then show ?case by simp
next
  case (Cons s ss)
  show ?case
  proof (cases i)
    case 0
    then show ?thesis by simp
  next
    case (Suc k)
    with Cons.prems have k: "k < length ss" by simp
    have "shared_when_reached refs (s # ss) ! i = shared_when_reached (release refs s) ss ! k"
      by (simp add: Suc)
    also have "\<dots> = (1 < release refs s (ss ! k) - count_list (take k ss) (ss ! k))"
      by (rule Cons.IH [OF k])
    also have "release refs s (ss ! k) - count_list (take k ss) (ss ! k)
        = refs ((s # ss) ! i) - count_list (take i (s # ss)) ((s # ss) ! i)"
      by (simp add: Suc release_def)
    finally show ?thesis .
  qed
qed

lemma held_props: "capacity (held refs node s) = capacity node"
  "isSharedOne (held refs node s) = (1 < refs s)"
  "\<not> 1 < refs s \<Longrightarrow> held refs node s = node\<lparr>sharedOne := False\<rparr>"
  "isSharedOne (node\<lparr>sharedOne := v\<rparr>) = v"
  "capacity (node\<lparr>sharedOne := v\<rparr>) = capacity node"
  by (simp_all add: held_def capacity_def isSharedOne_def)

lemma drain_loop_accept:
  assumes "\<not> 1 < refs s"
    and "case best of None \<Rightarrow> True | Some (b, sb) \<Rightarrow> capacity node > capacity b"
  shows "clearAndTryReuseLargestBuffer_loop refs ((node, s) # xs) best
     = clearAndTryReuseLargestBuffer_loop
         (case best of None \<Rightarrow> refs | Some (b, sb) \<Rightarrow> release refs sb) xs
         (Some (node\<lparr>sharedOne := False\<rparr>, s))"
proof (cases best)
  case None
  with assms show ?thesis by (simp add: Let_def held_props)
next
  case (Some p)
  obtain b sb where "p = (b, sb)" by (cases p)
  with Some assms show ?thesis by (simp add: Let_def held_props)
qed

lemma drain_loop_reject:
  assumes "\<not> (\<not> 1 < refs s \<and>
      (case best of None \<Rightarrow> True | Some (b, sb) \<Rightarrow> capacity node > capacity b))"
  shows "clearAndTryReuseLargestBuffer_loop refs ((node, s) # xs) best
     = clearAndTryReuseLargestBuffer_loop (release refs s) xs best"
proof (cases best)
  case None
  with assms show ?thesis by (simp add: Let_def held_props)
next
  case (Some p)
  obtain b sb where "p = (b, sb)" by (cases p)
  with Some assms show ?thesis by (auto simp: Let_def held_props)
qed

lemma drain_loop_spec:
  assumes "\<forall>s\<in>set (map snd xs). count_list (map snd xs) s \<le> refs s"
    and "case best of None \<Rightarrow> True | Some (b, sb) \<Rightarrow> sb \<notin> set (map snd xs)"
  shows "(clearAndTryReuseLargestBuffer_loop refs xs best = best \<and>
          (\<forall>p\<in>set (zip (map fst xs) (shared_when_reached refs (map snd xs))).
              \<not> snd p \<longrightarrow> (case best of None \<Rightarrow> False
                                | Some (b, sb) \<Rightarrow> capacity (fst p) \<le> capacity b))) \<or>
         (\<exists>pre b s post.
            clearAndTryReuseLargestBuffer_loop refs xs best = Some (b\<lparr>sharedOne := False\<rparr>, s) \<and>
            zip (map fst xs) (shared_when_reached refs (map snd xs)) = pre @ (b, False) # post \<and>
            (\<forall>p\<in>set pre. \<not> snd p \<longrightarrow> capacity (fst p) < capacity b) \<and>
            (\<forall>p\<in>set post. \<not> snd p \<longrightarrow> capacity (fst p) \<le> capacity b) \<and>
            (case best of None \<Rightarrow> True | Some (b0, s0) \<Rightarrow> capacity b0 < capacity b))"
  using assms
proof (induction xs arbitrary: refs best)
  case Nil
  then show ?case by simp
next
  case (Cons x xs)
  obtain node s where x: "x = (node, s)" by (cases x)
  let ?ss = "map snd xs"
  let ?ys = "zip (map fst xs) (shared_when_reached (release refs s) ?ss)"
  have zs: "zip (map fst (x # xs)) (shared_when_reached refs (map snd (x # xs)))
      = (node, 1 < refs s) # ?ys" by (simp add: x)
  from Cons.prems(1) have cs: "Suc (count_list ?ss s) \<le> refs s" by (simp add: x)
  have cr: "\<forall>t\<in>set ?ss. count_list ?ss t \<le> refs t"
  proof
    fix t assume "t \<in> set ?ss"
    then have "t \<in> set (map snd (x # xs))" by simp
    then have "count_list (map snd (x # xs)) t \<le> refs t" by (rule Cons.prems(1) [rule_format])
    moreover have "count_list ?ss t \<le> count_list (map snd (x # xs)) t" by (simp add: x)
    ultimately show "count_list ?ss t \<le> refs t" by linarith
  qed
  from Cons.prems(2) have b2: "case best of None \<Rightarrow> True | Some (b, sb) \<Rightarrow> sb \<noteq> s \<and> sb \<notin> set ?ss"
    by (auto simp: x split: option.splits)
  let ?acc = "\<not> 1 < refs s \<and> (case best of None \<Rightarrow> True | Some (b, sb) \<Rightarrow> capacity node > capacity b)"
  show ?case
  proof (cases ?acc)
    case True
    let ?refsA = "case best of None \<Rightarrow> refs | Some (b, sb) \<Rightarrow> release refs sb"
    let ?n' = "node\<lparr>sharedOne := False\<rparr>"
    from True have h: "held refs node s = ?n'" by (simp add: held_props)
    have cap: "capacity ?n' = capacity node" by (simp add: capacity_def)
    from True have step: "clearAndTryReuseLargestBuffer_loop refs (x # xs) best
        = clearAndTryReuseLargestBuffer_loop ?refsA xs (Some (?n', s))"
      unfolding x by (intro drain_loop_accept) simp_all
    from True cs have "count_list ?ss s = 0" by simp
    then have sn: "s \<notin> set ?ss" by (simp add: count_list_0_iff)
    have agree: "\<forall>t\<in>set ?ss. ?refsA t = refs t"
      using b2 by (auto simp: release_def split: option.splits)
    have j1: "\<forall>t\<in>set ?ss. count_list ?ss t \<le> ?refsA t"
      using cr agree by simp
    have j2: "case Some (?n', s) of None \<Rightarrow> True | Some (b, sb) \<Rightarrow> sb \<notin> set ?ss"
      using sn by simp
    have fl: "shared_when_reached ?refsA ?ss = shared_when_reached (release refs s) ?ss"
      by (rule shared_when_reached_cong) (use agree sn in \<open>auto simp: release_def\<close>)
    from True have best_lt: "case best of None \<Rightarrow> True | Some (b0, s0) \<Rightarrow> capacity b0 < capacity node"
      by (simp split: option.splits)
    from Cons.IH [OF j1 j2, unfolded fl]
    consider (keep) "clearAndTryReuseLargestBuffer_loop ?refsA xs (Some (?n', s)) = Some (?n', s)"
        "\<forall>p\<in>set ?ys. \<not> snd p \<longrightarrow> capacity (fst p) \<le> capacity node"
      | (later) pre b s2 post where
        "clearAndTryReuseLargestBuffer_loop ?refsA xs (Some (?n', s)) = Some (b\<lparr>sharedOne := False\<rparr>, s2)"
        "?ys = pre @ (b, False) # post"
        "\<forall>p\<in>set pre. \<not> snd p \<longrightarrow> capacity (fst p) < capacity b"
        "\<forall>p\<in>set post. \<not> snd p \<longrightarrow> capacity (fst p) \<le> capacity b"
        "capacity node < capacity b"
      by (auto simp: cap)
    then show ?thesis
    proof cases
      case keep
      have "\<exists>pre b s' post.
            clearAndTryReuseLargestBuffer_loop refs (x # xs) best = Some (b\<lparr>sharedOne := False\<rparr>, s') \<and>
            zip (map fst (x # xs)) (shared_when_reached refs (map snd (x # xs)))
               = pre @ (b, False) # post \<and>
            (\<forall>p\<in>set pre. \<not> snd p \<longrightarrow> capacity (fst p) < capacity b) \<and>
            (\<forall>p\<in>set post. \<not> snd p \<longrightarrow> capacity (fst p) \<le> capacity b) \<and>
            (case best of None \<Rightarrow> True | Some (b0, s0) \<Rightarrow> capacity b0 < capacity b)"
        apply (rule exI [of _ "[]"], rule exI [of _ node], rule exI [of _ s], rule exI [of _ ?ys])
        unfolding zs step using keep True best_lt by simp
      then show ?thesis by blast
    next
      case later
      from best_lt later(5)
      have bl: "case best of None \<Rightarrow> True | Some (b0, s0) \<Rightarrow> capacity b0 < capacity b"
        by (auto split: option.splits)
      have "\<exists>pre b s' post.
            clearAndTryReuseLargestBuffer_loop refs (x # xs) best = Some (b\<lparr>sharedOne := False\<rparr>, s') \<and>
            zip (map fst (x # xs)) (shared_when_reached refs (map snd (x # xs)))
               = pre @ (b, False) # post \<and>
            (\<forall>p\<in>set pre. \<not> snd p \<longrightarrow> capacity (fst p) < capacity b) \<and>
            (\<forall>p\<in>set post. \<not> snd p \<longrightarrow> capacity (fst p) \<le> capacity b) \<and>
            (case best of None \<Rightarrow> True | Some (b0, s0) \<Rightarrow> capacity b0 < capacity b)"
        apply (rule exI [of _ "(node, 1 < refs s) # pre"], rule exI [of _ b],
            rule exI [of _ s2], rule exI [of _ post])
        unfolding zs step using later bl by simp
      then show ?thesis by blast
    qed
  next
    case False
    then have step: "clearAndTryReuseLargestBuffer_loop refs (x # xs) best
        = clearAndTryReuseLargestBuffer_loop (release refs s) xs best"
      unfolding x by (intro drain_loop_reject) simp
    have j1: "\<forall>t\<in>set ?ss. count_list ?ss t \<le> release refs s t"
      using cr cs by (auto simp: release_def)
    have j2: "case best of None \<Rightarrow> True | Some (b, sb) \<Rightarrow> sb \<notin> set ?ss"
      using b2 by (auto split: option.splits)
    from False have rej: "1 < refs s \<or> (\<exists>b sb. best = Some (b, sb) \<and> capacity node \<le> capacity b)"
      by (auto split: option.splits)
    from Cons.IH [OF j1 j2]
    consider (keep) "clearAndTryReuseLargestBuffer_loop (release refs s) xs best = best"
        "\<forall>p\<in>set ?ys. \<not> snd p \<longrightarrow> (case best of None \<Rightarrow> False
                                | Some (b, sb) \<Rightarrow> capacity (fst p) \<le> capacity b)"
      | (later) pre b s2 post where
        "clearAndTryReuseLargestBuffer_loop (release refs s) xs best = Some (b\<lparr>sharedOne := False\<rparr>, s2)"
        "?ys = pre @ (b, False) # post"
        "\<forall>p\<in>set pre. \<not> snd p \<longrightarrow> capacity (fst p) < capacity b"
        "\<forall>p\<in>set post. \<not> snd p \<longrightarrow> capacity (fst p) \<le> capacity b"
        "case best of None \<Rightarrow> True | Some (b0, s0) \<Rightarrow> capacity b0 < capacity b"
      by blast
    then show ?thesis
    proof cases
      case keep
      have "clearAndTryReuseLargestBuffer_loop refs (x # xs) best = best \<and>
          (\<forall>p\<in>set (zip (map fst (x # xs)) (shared_when_reached refs (map snd (x # xs)))).
              \<not> snd p \<longrightarrow> (case best of None \<Rightarrow> False
                                | Some (b, sb) \<Rightarrow> capacity (fst p) \<le> capacity b))"
        unfolding zs step using keep rej by auto
      then show ?thesis by blast
    next
      case later
      from rej later(5) have nl: "\<not> 1 < refs s \<longrightarrow> capacity node < capacity b"
        by (auto split: option.splits)
      have "\<exists>pre b s' post.
            clearAndTryReuseLargestBuffer_loop refs (x # xs) best = Some (b\<lparr>sharedOne := False\<rparr>, s') \<and>
            zip (map fst (x # xs)) (shared_when_reached refs (map snd (x # xs)))
               = pre @ (b, False) # post \<and>
            (\<forall>p\<in>set pre. \<not> snd p \<longrightarrow> capacity (fst p) < capacity b) \<and>
            (\<forall>p\<in>set post. \<not> snd p \<longrightarrow> capacity (fst p) \<le> capacity b) \<and>
            (case best of None \<Rightarrow> True | Some (b0, s0) \<Rightarrow> capacity b0 < capacity b)"
        apply (rule exI [of _ "(node, 1 < refs s) # pre"], rule exI [of _ b],
            rule exI [of _ s2], rule exI [of _ post])
        unfolding zs step using later nl by simp
      then show ?thesis by blast
    qed
  qed
qed


lemma clear_props: "IOBuf_length (clear b) = 0" "capacity (clear b) = capacity b"
  "wf_buf (clear b)" "chain_data [clear b] = []" "isSharedOne (clear b) = isSharedOne b"
  by (simp_all add: clear_def IOBuf_length_def capacity_def wf_buf_def chain_data_def data_def
      isSharedOne_def)

lemma clear_unshared:
  "clear b = clear b' \<Longrightarrow> clear (b\<lparr>sharedOne := v\<rparr>) = clear (b'\<lparr>sharedOne := v\<rparr>)"
proof -
  assume e: "clear b = clear b'"
  have "clear (b\<lparr>sharedOne := v\<rparr>) = (clear b)\<lparr>sharedOne := v\<rparr>" by (simp add: clear_def)
  also have "\<dots> = (clear b')\<lparr>sharedOne := v\<rparr>" by (simp only: e)
  also have "\<dots> = clear (b'\<lparr>sharedOne := v\<rparr>)" by (simp add: clear_def)
  finally show ?thesis .
qed

lemma drain_index:
  assumes z: "zip c F = pre @ (b, False) # post" and l: "length F = length c"
    and p1: "\<forall>p\<in>set pre. \<not> snd p \<longrightarrow> capacity (fst p) < capacity b"
    and p2: "\<forall>p\<in>set post. \<not> snd p \<longrightarrow> capacity (fst p) \<le> capacity b"
  shows "length pre < length c" "c ! length pre = b" "\<not> F ! length pre"
    "\<forall>j<length pre. \<not> F ! j \<longrightarrow> capacity (c ! j) < capacity b"
    "\<forall>j<length c. \<not> F ! j \<longrightarrow> capacity (c ! j) \<le> capacity b"
proof -
  have "length (zip c F) = length c" using l by simp
  then have lp: "length c = length pre + Suc (length post)" by (simp add: z)
  then show i: "length pre < length c" by simp
  have nz: "(pre @ (b, False) # post) ! j = (c ! j, F ! j)" if "j < length c" for j
    using that l by (simp add: z [symmetric])
  from nz [OF i] show ci: "c ! length pre = b" and fi: "\<not> F ! length pre" by simp_all
  show lt: "\<forall>j<length pre. \<not> F ! j \<longrightarrow> capacity (c ! j) < capacity b"
  proof (intro allI impI)
    fix j assume j: "j < length pre" and f: "\<not> F ! j"
    from j i have "j < length c" by simp
    from nz [OF this] j have "pre ! j = (c ! j, F ! j)" by (simp add: nth_append)
    with j have "(c ! j, F ! j) \<in> set pre" by (metis nth_mem)
    with p1 f show "capacity (c ! j) < capacity b" by fastforce
  qed
  show "\<forall>j<length c. \<not> F ! j \<longrightarrow> capacity (c ! j) \<le> capacity b"
  proof (intro allI impI)
    fix j assume j: "j < length c" and f: "\<not> F ! j"
    consider "j < length pre" | "j = length pre" | "length pre < j" by linarith
    then show "capacity (c ! j) \<le> capacity b"
    proof cases
      case 1
      with lt f show ?thesis by (simp add: less_imp_le)
    next
      case 2
      with ci show ?thesis by simp
    next
      case 3
      then obtain k where k: "j = length pre + Suc k" by (metis less_iff_Suc_add add_Suc_right)
      with j lp have kl: "k < length post" by simp
      from nz [OF j] k have "post ! k = (c ! j, F ! j)" by (simp add: nth_append)
      with kl have "(c ! j, F ! j) \<in> set post" by (metis nth_mem)
      with p2 f show ?thesis by fastforce
    qed
  qed
qed

lemma drain_entry_flags:
  assumes "flags_ok refs infos c" "j < length c"
  shows "isSharedOne (c ! j) = (1 < refs (infos ! j))"
  using assms by (simp add: flags_ok_def list_all2_conv_all_nth)


lemma drain_distinct_flag:
  assumes "distinct infos" "j < length infos"
  shows "count_list (take j infos) (infos ! j) = 0"
proof -
  from assms(2) have "infos = take j infos @ infos ! j # drop (Suc j) infos"
    by (rule id_take_nth_drop)
  with assms(1) have "distinct (take j infos @ infos ! j # drop (Suc j) infos)" by simp
  then have "infos ! j \<notin> set (take j infos)" by simp
  then show ?thesis by (simp add: count_list_0_iff)
qed

text \<open>
  C9, as stated, fails. In \<open>ex_pair\<close> the chain is a node and a clone of it: both nodes
  are shared when \<^verbatim>\<open>clearAndTryReuseLargestBuffer()\<close> is called, the storage having no
  other holder, and yet the queue is left with one node. In \<open>ex_triple\<close> the only node
  that is unshared at the call has capacity 3, and the queue is left with a node of
  capacity 8, the clone that ends the chain.
\<close>

theorem clearAndTryReuseLargestBuffer_keeps_shared_at_entry:
  "wf ex_pair \<and> flags_ok ex_holders [7, 7] (head ex_pair) \<and> holders_ok ex_holders [7, 7] \<and>
   map isSharedOne (head ex_pair) = [True, True] \<and>
   length (head (snd (clearAndTryReuseLargestBuffer ex_holders [7, 7] ex_pair))) = 1 \<and>
   wf ex_triple \<and> flags_ok ex_holders [7, 8, 7] (head ex_triple) \<and>
   holders_ok ex_holders [7, 8, 7] \<and>
   map isSharedOne (head ex_triple) = [True, False, True] \<and>
   map capacity (head ex_triple) = [8, 3, 8] \<and>
   map capacity (head (snd (clearAndTryReuseLargestBuffer ex_holders [7, 8, 7] ex_triple))) = [8]"
  by (simp add: wf_def wf_buf_def lease_ok_def length_ok_def isSharedOne_def writableTail_def
      capacity_def computeChainDataLength_def IOBuf_length_def flags_ok_def holders_ok_def
      ex_holders_def clearAndTryReuseLargestBuffer_def updateGuard_def flushCache_def
      updateWritableTailCache_def Let_def held_def release_def clear_def)

text \<open>
  C9, amended. Let the holders of every storage be counted by \<open>refs\<close>, consistently with
  the chain (\<open>flags_ok\<close>, \<open>holders_ok\<close>). On a well-formed queue
  \<^verbatim>\<open>clearAndTryReuseLargestBuffer()\<close> returns normally, and the total length becomes 0.
  A node counts as shared if its storage still has another holder when the loop reaches
  it, that is once the nodes before it in the chain have given up theirs
  (\<open>shared_when_reached\<close>, in closed form below); a node that was unshared at the call is
  unshared when reached, and the two notions agree when no two nodes of the chain hold
  the same storage. If every node is shared when reached (or there is none) the chain is
  left empty. Otherwise the chain is left with exactly one node, of length 0: the node at
  some position \<open>i\<close>, unshared when reached and now the only holder of its storage, whose
  capacity is the maximum over the nodes that are unshared when reached, every such node
  before position \<open>i\<close> having a strictly smaller capacity: the first node seen wins a tie.
\<close>

theorem clearAndTryReuseLargestBuffer_keeps_largest_when_reached:
  assumes "wf q" and "flags_ok refs infos (head q)" and "holders_ok refs infos"
  shows "fst (clearAndTryReuseLargestBuffer refs infos q) = Inr () \<and>
     totalLength (snd (clearAndTryReuseLargestBuffer refs infos q)) = 0 \<and>
     wf (snd (clearAndTryReuseLargestBuffer refs infos q)) \<and>
     (\<forall>j<length (head q). shared_when_reached refs infos ! j =
         (1 < refs (infos ! j) - count_list (take j infos) (infos ! j))) \<and>
     (\<forall>j<length (head q). \<not> isSharedOne (head q ! j) \<longrightarrow> \<not> shared_when_reached refs infos ! j) \<and>
     (distinct infos \<longrightarrow> shared_when_reached refs infos = map isSharedOne (head q)) \<and>
     (list_all (\<lambda>f. f) (shared_when_reached refs infos) \<longrightarrow>
        head (snd (clearAndTryReuseLargestBuffer refs infos q)) = []) \<and>
     (\<not> list_all (\<lambda>f. f) (shared_when_reached refs infos) \<longrightarrow>
        (\<exists>i<length (head q). \<not> shared_when_reached refs infos ! i \<and>
           (\<forall>j<i. \<not> shared_when_reached refs infos ! j \<longrightarrow>
                capacity (head q ! j) < capacity (head q ! i)) \<and>
           (\<forall>j<length (head q). \<not> shared_when_reached refs infos ! j \<longrightarrow>
                capacity (head q ! j) \<le> capacity (head q ! i)) \<and>
           capacity (head q ! i) =
             Max ((\<lambda>j. capacity (head q ! j)) `
                    {j. j < length (head q) \<and> \<not> shared_when_reached refs infos ! j}) \<and>
           head (snd (clearAndTryReuseLargestBuffer refs infos q))
             = [clear ((head q ! i)\<lparr>sharedOne := False\<rparr>)] \<and>
           IOBuf_length (clear ((head q ! i)\<lparr>sharedOne := False\<rparr>)) = 0 \<and>
           capacity (clear ((head q ! i)\<lparr>sharedOne := False\<rparr>)) = capacity (head q ! i)))"
proof -
  let ?R = "clearAndTryReuseLargestBuffer refs infos q"
  let ?F = "shared_when_reached refs infos"
  let ?c = "head q"
  let ?body = "\<lambda>q. let best = clearAndTryReuseLargestBuffer_loop refs (zip (head q) infos) None;
           q1 = (case best of
                   None \<Rightarrow> q\<lparr>head := []\<rparr>
                 | Some (b, s) \<Rightarrow> q\<lparr>head := [clear b]\<rparr>)
       in (Inr () :: error + unit, q1\<lparr>chainLength := 0\<rparr>)"
  from assms(2) have len: "length infos = length ?c"
    by (simp add: flags_ok_def list_all2_lengthD)
  have lf: "length ?F = length ?c" by (simp add: shared_when_reached_length len)
  from flushCache_ok [OF assms(1)] obtain q1 where f: "flushCache q = Inr q1"
    and mc: "map capacity (head q1) = map capacity (head q)"
    and ml: "map clear (head q1) = map clear (head q)"
    by blast
  from mc have l1: "length (head q1) = length ?c" by (metis length_map)
  have capeq: "capacity (head q1 ! j) = capacity (?c ! j)" if "j < length ?c" for j
    using that l1 mc by (metis nth_map)
  have cleq: "clear (head q1 ! j) = clear (?c ! j)" if "j < length ?c" for j
    using that l1 ml by (metis nth_map)
  from f have run: "?R = (fst (?body q1), updateWritableTailCache (snd (?body q1)))"
    by (simp add: clearAndTryReuseLargestBuffer_def updateGuard_def split: prod.splits)
  let ?q2 = "snd (?body q1)"
  have ok: "fst (?body q1) = Inr ()" by (simp add: Let_def)
  have w2: "list_all wf_buf (head ?q2)" and lk2: "length_ok ?q2" and cd2: "chain_data (head ?q2) = []"
    by (simp_all add: Let_def clear_props length_ok_def computeChainDataLength_def chain_data_Nil
        split: option.splits prod.splits)
  note ge = guard_exit [OF w2 lk2]
  from run ok have e1: "fst ?R = Inr ()" by simp
  from run have sn: "snd ?R = updateWritableTailCache ?q2" by simp
  have e2: "totalLength (snd ?R) = 0"
    unfolding sn using ge(3) cd2 by simp
  have e3: "wf (snd ?R)"
    unfolding sn by (rule ge(1))
  have e4: "head (snd ?R) = head ?q2"
    unfolding sn by (rule ge(4))
  have c1: "\<forall>j<length ?c. ?F ! j = (1 < refs (infos ! j) - count_list (take j infos) (infos ! j))"
    by (simp add: shared_when_reached_nth len)
  have c2: "\<forall>j<length ?c. \<not> isSharedOne (?c ! j) \<longrightarrow> \<not> ?F ! j"
  proof (intro allI impI)
    fix j assume j: "j < length ?c" and u: "\<not> isSharedOne (?c ! j)"
    from drain_entry_flags [OF assms(2) j] u have "\<not> 1 < refs (infos ! j)" by simp
    then have "\<not> 1 < refs (infos ! j) - count_list (take j infos) (infos ! j)" by arith
    with c1 j show "\<not> ?F ! j" by simp
  qed
  have c3: "distinct infos \<longrightarrow> ?F = map isSharedOne ?c"
  proof
    assume d: "distinct infos"
    show "?F = map isSharedOne ?c"
    proof (rule nth_equalityI)
      show "length ?F = length (map isSharedOne ?c)" by (simp add: lf)
      fix j assume "j < length ?F"
      then have j: "j < length ?c" by (simp add: lf)
      with len have ji: "j < length infos" by simp
      from c1 j have "?F ! j = (1 < refs (infos ! j) - count_list (take j infos) (infos ! j))"
        by simp
      also have "\<dots> = (1 < refs (infos ! j))" by (simp add: drain_distinct_flag [OF d ji])
      also have "\<dots> = isSharedOne (?c ! j)" by (simp add: drain_entry_flags [OF assms(2) j])
      also have "\<dots> = map isSharedOne ?c ! j" using j by simp
      finally show "?F ! j = map isSharedOne ?c ! j" .
    qed
  qed
  have ms: "map snd (zip (head q1) infos) = infos" and mf: "map fst (zip (head q1) infos) = head q1"
    by (simp_all add: l1 len)
  have j1: "\<forall>s\<in>set (map snd (zip (head q1) infos)).
      count_list (map snd (zip (head q1) infos)) s \<le> refs s"
    unfolding ms using assms(3) by (simp add: holders_ok_def list_all_iff)
  have j2: "case (None :: (IOBuf \<times> nat) option) of None \<Rightarrow> True
      | Some (b, sb) \<Rightarrow> sb \<notin> set (map snd (zip (head q1) infos))" by simp
  from drain_loop_spec [OF j1 j2, unfolded ms mf]
  consider (none) "clearAndTryReuseLargestBuffer_loop refs (zip (head q1) infos) None = None"
      "\<forall>p\<in>set (zip (head q1) ?F). snd p"
    | (some) pre b s post where
        "clearAndTryReuseLargestBuffer_loop refs (zip (head q1) infos) None
           = Some (b\<lparr>sharedOne := False\<rparr>, s)"
        "zip (head q1) ?F = pre @ (b, False) # post"
        "\<forall>p\<in>set pre. \<not> snd p \<longrightarrow> capacity (fst p) < capacity b"
        "\<forall>p\<in>set post. \<not> snd p \<longrightarrow> capacity (fst p) \<le> capacity b"
    by auto
  then have "(list_all (\<lambda>f. f) ?F \<longrightarrow> head (snd ?R) = []) \<and>
     (\<not> list_all (\<lambda>f. f) ?F \<longrightarrow>
        (\<exists>i<length ?c. \<not> ?F ! i \<and>
           (\<forall>j<i. \<not> ?F ! j \<longrightarrow> capacity (?c ! j) < capacity (?c ! i)) \<and>
           (\<forall>j<length ?c. \<not> ?F ! j \<longrightarrow> capacity (?c ! j) \<le> capacity (?c ! i)) \<and>
           capacity (?c ! i) =
             Max ((\<lambda>j. capacity (?c ! j)) ` {j. j < length ?c \<and> \<not> ?F ! j}) \<and>
           head (snd ?R) = [clear ((?c ! i)\<lparr>sharedOne := False\<rparr>)] \<and>
           IOBuf_length (clear ((?c ! i)\<lparr>sharedOne := False\<rparr>)) = 0 \<and>
           capacity (clear ((?c ! i)\<lparr>sharedOne := False\<rparr>)) = capacity (?c ! i)))"
  proof cases
    case none
    from none(1) have "head ?q2 = []" by (simp add: Let_def)
    with e4 have h: "head (snd ?R) = []" by simp
    have "map snd (zip (head q1) ?F) = ?F" by (simp add: l1 lf)
    then have "set ?F = snd ` set (zip (head q1) ?F)" by (metis set_map)
    with none(2) have "list_all (\<lambda>f. f) ?F" by (auto simp: list_all_iff)
    with h show ?thesis by simp
  next
    case some
    let ?i = "length pre"
    from some(1) have h2: "head ?q2 = [clear (b\<lparr>sharedOne := False\<rparr>)]" by (simp add: Let_def)
    have lq: "length ?F = length (head q1)" by (simp add: lf l1)
    note di = drain_index [OF some(2) lq some(3) some(4)]
    from di(1) l1 have i: "?i < length ?c" by simp
    from di(2) capeq [OF i] have cb: "capacity b = capacity (?c ! ?i)" by simp
    from di(2) cleq [OF i] have "clear b = clear (?c ! ?i)" by simp
    then have clb: "clear (b\<lparr>sharedOne := False\<rparr>) = clear ((?c ! ?i)\<lparr>sharedOne := False\<rparr>)"
      by (rule clear_unshared)
    have p1: "\<forall>j<?i. \<not> ?F ! j \<longrightarrow> capacity (?c ! j) < capacity (?c ! ?i)"
    proof (intro allI impI)
      fix j assume j: "j < ?i" and u: "\<not> ?F ! j"
      with di(4) have "capacity (head q1 ! j) < capacity b" by simp
      moreover from j i have "j < length ?c" by simp
      ultimately show "capacity (?c ! j) < capacity (?c ! ?i)" using capeq cb by simp
    qed
    have p2: "\<forall>j<length ?c. \<not> ?F ! j \<longrightarrow> capacity (?c ! j) \<le> capacity (?c ! ?i)"
    proof (intro allI impI)
      fix j assume j: "j < length ?c" and u: "\<not> ?F ! j"
      with di(5) l1 have "capacity (head q1 ! j) \<le> capacity b" by simp
      with j show "capacity (?c ! j) \<le> capacity (?c ! ?i)" using capeq cb by simp
    qed
    have mx: "Max ((\<lambda>j. capacity (?c ! j)) ` {j. j < length ?c \<and> \<not> ?F ! j}) = capacity (?c ! ?i)"
    proof (rule Max_eqI)
      show "finite ((\<lambda>j. capacity (?c ! j)) ` {j. j < length ?c \<and> \<not> ?F ! j})" by simp
      show "capacity (?c ! ?i) \<in> (\<lambda>j. capacity (?c ! j)) ` {j. j < length ?c \<and> \<not> ?F ! j}"
        using i di(3) by blast
      fix y assume "y \<in> (\<lambda>j. capacity (?c ! j)) ` {j. j < length ?c \<and> \<not> ?F ! j}"
      then obtain j where "j < length ?c" "\<not> ?F ! j" "y = capacity (?c ! j)" by blast
      with p2 show "y \<le> capacity (?c ! ?i)" by simp
    qed
    from i di(3) lf have ns: "\<not> list_all (\<lambda>f. f) ?F" by (auto simp: list_all_length)
    have "\<exists>i<length ?c. \<not> ?F ! i \<and>
           (\<forall>j<i. \<not> ?F ! j \<longrightarrow> capacity (?c ! j) < capacity (?c ! i)) \<and>
           (\<forall>j<length ?c. \<not> ?F ! j \<longrightarrow> capacity (?c ! j) \<le> capacity (?c ! i)) \<and>
           capacity (?c ! i) =
             Max ((\<lambda>j. capacity (?c ! j)) ` {j. j < length ?c \<and> \<not> ?F ! j}) \<and>
           head (snd ?R) = [clear ((?c ! i)\<lparr>sharedOne := False\<rparr>)] \<and>
           IOBuf_length (clear ((?c ! i)\<lparr>sharedOne := False\<rparr>)) = 0 \<and>
           capacity (clear ((?c ! i)\<lparr>sharedOne := False\<rparr>)) = capacity (?c ! i)"
      apply (rule exI [of _ ?i])
      using i di(3) p1 p2 mx e4 h2 clb by (simp add: clear_props held_props)
    with ns show ?thesis by simp
  qed
  with e1 e2 e3 c1 c2 c3 show ?thesis by simp
qed


theorem clearAndTryReuseLargestBuffer_keeps_largest_when_reached_witness:
  "wf ex_triple \<and> flags_ok ex_holders [7, 8, 7] (head ex_triple) \<and>
   holders_ok ex_holders [7, 8, 7] \<and>
   shared_when_reached ex_holders [7, 8, 7] = [True, False, False] \<and>
   head (snd (clearAndTryReuseLargestBuffer ex_holders [7, 8, 7] ex_triple))
     = [clear (ex_a\<lparr>sharedOne := False\<rparr>)] \<and>
   totalLength (snd (clearAndTryReuseLargestBuffer ex_holders [7, 8, 7] ex_triple)) = 0 \<and>
   wf ex_lent \<and> flags_ok ex_holders [7] (head ex_lent) \<and> holders_ok ex_holders [7] \<and>
   shared_when_reached ex_holders [7] = [True] \<and>
   head (snd (clearAndTryReuseLargestBuffer ex_holders [7] ex_lent)) = []"
proof -
  have w: "wf ex_triple" "wf ex_lent"
    by (simp_all add: wf_def wf_buf_def lease_ok_def length_ok_def isSharedOne_def
        writableTail_def capacity_def computeChainDataLength_def IOBuf_length_def)
  have fo: "flags_ok ex_holders [7, 8, 7] (head ex_triple)" "flags_ok ex_holders [7] (head ex_lent)"
    by (simp_all add: flags_ok_def ex_holders_def isSharedOne_def)
  have ho: "holders_ok ex_holders [7, 8, 7]" "holders_ok ex_holders [7]"
    by (simp_all add: holders_ok_def ex_holders_def)
  have F: "shared_when_reached ex_holders [7, 8, 7] = [True, False, False]"
    "shared_when_reached ex_holders [7] = [True]"
    by (simp_all add: release_def ex_holders_def)
  note t = clearAndTryReuseLargestBuffer_keeps_largest_when_reached [OF w(1) fo(1) ho(1)]
  note l = clearAndTryReuseLargestBuffer_keeps_largest_when_reached [OF w(2) fo(2) ho(2)]
  note tl = t [THEN conjunct2, THEN conjunct1]
  have nl: "\<not> list_all (\<lambda>f. f) (shared_when_reached ex_holders [7, 8, 7])"
    unfolding F by simp
  from t have "\<not> list_all (\<lambda>f. f) (shared_when_reached ex_holders [7, 8, 7]) \<longrightarrow>
      (\<exists>i<length (head ex_triple). \<not> shared_when_reached ex_holders [7, 8, 7] ! i \<and>
         (\<forall>j<i. \<not> shared_when_reached ex_holders [7, 8, 7] ! j \<longrightarrow>
              capacity (head ex_triple ! j) < capacity (head ex_triple ! i)) \<and>
         (\<forall>j<length (head ex_triple). \<not> shared_when_reached ex_holders [7, 8, 7] ! j \<longrightarrow>
              capacity (head ex_triple ! j) \<le> capacity (head ex_triple ! i)) \<and>
         capacity (head ex_triple ! i) =
           Max ((\<lambda>j. capacity (head ex_triple ! j)) `
                  {j. j < length (head ex_triple) \<and> \<not> shared_when_reached ex_holders [7, 8, 7] ! j}) \<and>
         head (snd (clearAndTryReuseLargestBuffer ex_holders [7, 8, 7] ex_triple))
           = [clear ((head ex_triple ! i)\<lparr>sharedOne := False\<rparr>)] \<and>
         IOBuf_length (clear ((head ex_triple ! i)\<lparr>sharedOne := False\<rparr>)) = 0 \<and>
         capacity (clear ((head ex_triple ! i)\<lparr>sharedOne := False\<rparr>))
           = capacity (head ex_triple ! i))"
    by (elim conjE)
  with nl obtain i where i: "i < length (head ex_triple)"
    "\<not> shared_when_reached ex_holders [7, 8, 7] ! i"
    "\<forall>j<length (head ex_triple). \<not> shared_when_reached ex_holders [7, 8, 7] ! j \<longrightarrow>
        capacity (head ex_triple ! j) \<le> capacity (head ex_triple ! i)"
    "head (snd (clearAndTryReuseLargestBuffer ex_holders [7, 8, 7] ex_triple))
       = [clear ((head ex_triple ! i)\<lparr>sharedOne := False\<rparr>)]"
    by blast
  note k = i [unfolded F]
  from k(3) [rule_format, of 2] have c: "8 \<le> capacity (head ex_triple ! i)"
    by (simp add: capacity_def)
  from k(1) have i3: "i < 3" by simp
  from k(2) have i0: "i \<noteq> 0" by (cases i) simp_all
  from i3 consider "i = 0" | "i = 1" | "i = 2" by linarith
  then have "i = 2"
  proof cases
    case 1
    with i0 show ?thesis by simp
  next
    case 2
    with c show ?thesis by (simp add: capacity_def)
  next
    case 3
    then show ?thesis .
  qed
  with i(4) have h: "head (snd (clearAndTryReuseLargestBuffer ex_holders [7, 8, 7] ex_triple))
     = [clear (ex_a\<lparr>sharedOne := False\<rparr>)]" by simp
  have al: "list_all (\<lambda>f. f) (shared_when_reached ex_holders [7])"
    unfolding F by simp
  from l have "list_all (\<lambda>f. f) (shared_when_reached ex_holders [7]) \<longrightarrow>
      head (snd (clearAndTryReuseLargestBuffer ex_holders [7] ex_lent)) = []"
    by (elim conjE)
  with al have e: "head (snd (clearAndTryReuseLargestBuffer ex_holders [7] ex_lent)) = []"
    by blast
  from w fo ho F h tl e show ?thesis by simp
qed

section \<open>The pack selector\<close>

lemma memcpy_tail:
  assumes "wf_buf t" "length bs \<le> IOBuf_tailroom t"
  defines "t2 \<equiv> IOBuf_append (length bs) (memcpy t (writableTail t) bs)"
  shows "wf_buf t2" "data t2 = data t @ bs" "capacity t2 = capacity t" "dataOff t2 = dataOff t"
    "len t2 = len t + length bs" "sharedOne t2 = sharedOne t"
    "IOBuf_tailroom t2 = IOBuf_tailroom t - length bs"
    "writableTail t2 = writableTail t + length bs"
proof -
  from assms(1,2) have b: "dataOff t + len t + length bs \<le> length (storage t)"
    by (simp add: wf_buf_def IOBuf_tailroom_def capacity_def writableTail_def)
  have st: "storage t2 = take (dataOff t + len t) (storage t) @ bs @
      drop (dataOff t + len t + length bs) (storage t)"
    by (simp add: t2_def IOBuf_append_def memcpy_def writableTail_def)
  from b have l: "length (storage t2) = length (storage t)"
    by (simp add: st)
  show "capacity t2 = capacity t" by (simp add: capacity_def l)
  show "dataOff t2 = dataOff t" "len t2 = len t + length bs" "sharedOne t2 = sharedOne t"
    by (simp_all add: t2_def IOBuf_append_def memcpy_def)
  then show "wf_buf t2" using b l by (simp add: wf_buf_def)
  show "writableTail t2 = writableTail t + length bs"
    by (simp add: t2_def IOBuf_append_def memcpy_def writableTail_def)
  then show "IOBuf_tailroom t2 = IOBuf_tailroom t - length bs"
    by (simp add: IOBuf_tailroom_def capacity_def l)
  have "drop (dataOff t) (storage t2) =
        take (len t) (drop (dataOff t) (storage t)) @ bs @
          drop (dataOff t + len t + length bs) (storage t)"
    using b by (simp add: st drop_take)
  moreover from b have "length (take (len t) (drop (dataOff t) (storage t))) = len t" by simp
  ultimately show "data t2 = data t @ bs"
    by (simp add: data_def t2_def IOBuf_append_def memcpy_def)
qed

lemma packInto_loop_spec:
  "wf_buf tail \<Longrightarrow> list_all wf_buf src \<Longrightarrow> packInto_loop budget tail src = (tail', rest) \<Longrightarrow>
   \<exists>consumed. src = consumed @ rest \<and>
      data tail' = data tail @ chain_data consumed \<and>
      length (chain_data consumed) \<le> budget \<and>
      wf_buf tail' \<and> len tail' = len tail + length (chain_data consumed) \<and>
      dataOff tail' = dataOff tail \<and> capacity tail' = capacity tail \<and>
      sharedOne tail' = sharedOne tail \<and>
      (rest \<noteq> [] \<longrightarrow> budget - length (chain_data consumed) < IOBuf_length (hd rest) \<or>
                     IOBuf_tailroom tail' < IOBuf_length (hd rest))"
proof (induction src arbitrary: budget tail)
  case Nil
  then show ?case by (simp add: chain_data_Nil)
next
  case (Cons s src)
  from Cons.prems(2) have ws: "wf_buf s" and wr: "list_all wf_buf src" by simp_all
  have ls: "length (data s) = len s" using ws by (rule data_length)
  show ?case
  proof (cases "IOBuf_length s \<le> budget \<and> IOBuf_length s \<le> IOBuf_tailroom tail")
    case False
    with Cons.prems(3) have "tail' = tail" "rest = s # src" by (auto simp: Let_def)
    with False Cons.prems(1) show ?thesis
      by (intro exI [of _ "[]"]) (auto simp: chain_data_Nil)
  next
    case fits: True
    show ?thesis
    proof (cases "IOBuf_length s > 0")
      case True
      let ?t2 = "IOBuf_append (length (data s)) (memcpy tail (writableTail tail) (data s))"
      from fits ls have fit: "length (data s) \<le> IOBuf_tailroom tail" by (simp add: IOBuf_length_def)
      note m = memcpy_tail [OF Cons.prems(1) fit]
      from Cons.prems(3) fits True
      have run: "packInto_loop (budget - IOBuf_length s) ?t2 src = (tail', rest)"
        by (simp add: Let_def ls IOBuf_length_def)
      from Cons.IH [OF m(1) wr run] obtain consumed where
        c: "src = consumed @ rest" "data tail' = data ?t2 @ chain_data consumed"
          "length (chain_data consumed) \<le> budget - IOBuf_length s"
          "wf_buf tail'" "len tail' = len ?t2 + length (chain_data consumed)"
          "dataOff tail' = dataOff ?t2" "capacity tail' = capacity ?t2"
          "sharedOne tail' = sharedOne ?t2"
          "rest \<noteq> [] \<longrightarrow> budget - IOBuf_length s - length (chain_data consumed) < IOBuf_length (hd rest) \<or>
                     IOBuf_tailroom tail' < IOBuf_length (hd rest)"
        by blast
      from fits have le: "len s \<le> budget" by (simp add: IOBuf_length_def)
      have "s # src = (s # consumed) @ rest \<and>
        data tail' = data tail @ chain_data (s # consumed) \<and>
        length (chain_data (s # consumed)) \<le> budget \<and>
        wf_buf tail' \<and> len tail' = len tail + length (chain_data (s # consumed)) \<and>
        dataOff tail' = dataOff tail \<and> capacity tail' = capacity tail \<and>
        sharedOne tail' = sharedOne tail \<and>
        (rest \<noteq> [] \<longrightarrow> budget - length (chain_data (s # consumed)) < IOBuf_length (hd rest) \<or>
                     IOBuf_tailroom tail' < IOBuf_length (hd rest))"
        using c m le by (simp add: chain_data_Cons ls IOBuf_length_def)
      then show ?thesis by blast
    next
      case False
      then have z: "len s = 0" by (simp add: IOBuf_length_def)
      from Cons.prems(3) fits False
      have run: "packInto_loop budget tail src = (tail', rest)"
        by (simp add: Let_def)
      from Cons.IH [OF Cons.prems(1) wr run] obtain consumed where
        c: "src = consumed @ rest" "data tail' = data tail @ chain_data consumed"
          "length (chain_data consumed) \<le> budget"
          "wf_buf tail'" "len tail' = len tail + length (chain_data consumed)"
          "dataOff tail' = dataOff tail" "capacity tail' = capacity tail"
          "sharedOne tail' = sharedOne tail"
          "rest \<noteq> [] \<longrightarrow> budget - length (chain_data consumed) < IOBuf_length (hd rest) \<or>
                     IOBuf_tailroom tail' < IOBuf_length (hd rest)"
        by blast
      from ls z have d0: "data s = []" by simp
      have "s # src = (s # consumed) @ rest \<and>
        data tail' = data tail @ chain_data (s # consumed) \<and>
        length (chain_data (s # consumed)) \<le> budget \<and>
        wf_buf tail' \<and> len tail' = len tail + length (chain_data (s # consumed)) \<and>
        dataOff tail' = dataOff tail \<and> capacity tail' = capacity tail \<and>
        sharedOne tail' = sharedOne tail \<and>
        (rest \<noteq> [] \<longrightarrow> budget - length (chain_data (s # consumed)) < IOBuf_length (hd rest) \<or>
                     IOBuf_tailroom tail' < IOBuf_length (hd rest))"
        using c d0 by (simp add: chain_data_Cons)
      then show ?thesis by blast
    qed
  qed
qed

text \<open>
  C5. Appending with packing onto a non-empty chain: if the tail is shared nothing is
  packed and the incoming run is spliced whole. Otherwise the incoming run splits into
  the nodes consumed and the rest; the tail's data grows by exactly the data of the
  consumed nodes, which is at most \<open>kMaxPackCopy\<close> bytes; the rest is spliced behind
  the tail node for node, unchanged; and when a node is left over, the first one is
  longer than the remaining budget or than the tail room (so it is not of length zero:
  zero-length leading nodes are always consumed).
\<close>

theorem appendToChain_pack:
  assumes "dst \<noteq> []" "wf_buf (last dst)" "list_all wf_buf src"
  shows "(isSharedOne (last dst) \<longrightarrow> appendToChain k dst src True = dst @ src) \<and>
         (\<not> isSharedOne (last dst) \<longrightarrow>
            (\<exists>tail' consumed rest.
               src = consumed @ rest \<and>
               appendToChain k dst src True = butlast dst @ [tail'] @ rest \<and>
               data tail' = data (last dst) @ chain_data consumed \<and>
               len tail' = len (last dst) + length (chain_data consumed) \<and>
               capacity tail' = capacity (last dst) \<and>
               length (chain_data consumed) \<le> k \<and>
               (rest \<noteq> [] \<longrightarrow> 0 < IOBuf_length (hd rest) \<and>
                  (k - length (chain_data consumed) < IOBuf_length (hd rest) \<or>
                   IOBuf_tailroom tail' < IOBuf_length (hd rest)))))"
proof (cases "isSharedOne (last dst)")
  case True
  with assms(1) show ?thesis
    by (simp add: appendToChain_def packInto_def)
next
  case False
  obtain tail' rest where l: "packInto_loop k (last dst) src = (tail', rest)"
    by (cases "packInto_loop k (last dst) src")
  from packInto_loop_spec [OF assms(2,3) l] obtain consumed where
    c: "src = consumed @ rest" "data tail' = data (last dst) @ chain_data consumed"
      "length (chain_data consumed) \<le> k"
      "len tail' = len (last dst) + length (chain_data consumed)"
      "capacity tail' = capacity (last dst)"
      "rest \<noteq> [] \<longrightarrow> k - length (chain_data consumed) < IOBuf_length (hd rest) \<or>
                     IOBuf_tailroom tail' < IOBuf_length (hd rest)"
    by blast
  from c(6) have pos: "rest \<noteq> [] \<longrightarrow> 0 < IOBuf_length (hd rest)" by auto
  from False assms(1) l have a: "appendToChain k dst src True = butlast dst @ [tail'] @ rest"
    by (simp add: appendToChain_def packInto_def)
  from False a c pos show ?thesis by blast
qed

theorem appendToChain_pack_witness:
  "[ex_node] \<noteq> [] \<and> wf_buf (last [ex_node]) \<and> list_all wf_buf [ex_small, ex_big] \<and>
   \<not> isSharedOne (last [ex_node]) \<and>
   appendToChain 4096 [ex_node] [ex_small, ex_big] True =
     [\<lparr>storage = [1, 2, 3, 7, 0], dataOff = 0, len = 4, sharedOne = False\<rparr>, ex_big] \<and>
   isSharedOne (last [ex_node\<lparr>sharedOne := True\<rparr>]) \<and>
   appendToChain 4096 [ex_node\<lparr>sharedOne := True\<rparr>] [ex_small, ex_big] True =
     [ex_node\<lparr>sharedOne := True\<rparr>, ex_small, ex_big]"
proof -
  have w: "wf_buf (last [ex_node])" "list_all wf_buf [ex_small, ex_big]"
    "wf_buf (last [ex_node\<lparr>sharedOne := True\<rparr>])"
    by (simp_all add: wf_buf_def)
  have s: "isSharedOne (last [ex_node\<lparr>sharedOne := True\<rparr>])" "\<not> isSharedOne (last [ex_node])"
    by (simp_all add: isSharedOne_def)
  from appendToChain_pack [OF _ w(3) w(2), of 4096] s(1)
  have a: "appendToChain 4096 [ex_node\<lparr>sharedOne := True\<rparr>] [ex_small, ex_big] True =
     [ex_node\<lparr>sharedOne := True\<rparr>, ex_small, ex_big]" by simp
  have b: "appendToChain 4096 [ex_node] [ex_small, ex_big] True =
     [\<lparr>storage = [1, 2, 3, 7, 0], dataOff = 0, len = 4, sharedOne = False\<rparr>, ex_big]"
    by (simp add: appendToChain_def packInto_def isSharedOne_def IOBuf_length_def
        IOBuf_tailroom_def capacity_def writableTail_def IOBuf_append_def memcpy_def data_def)
  from a b w s show ?thesis by simp
qed

section \<open>Prepending\<close>

lemma prepend_on_chain:
  assumes "head q = h # rest" "wf_buf h"
  shows "(IOBuf_headroom h < length buf \<longrightarrow> prepend buf q = (Inl Overflow_error, q)) \<and>
         (length buf \<le> IOBuf_headroom h \<longrightarrow>
            (\<exists>h'. prepend buf q = (Inr (), q\<lparr>head := h' # rest,
                         chainLength := chainLength q + of_nat (length buf)\<rparr>) \<and>
                  data h' = buf @ data h \<and>
                  IOBuf_headroom h' = IOBuf_headroom h - length buf \<and>
                  IOBuf_length h' = IOBuf_length h + length buf))"
proof -
  let ?n = "length buf"
  let ?h' = "IOBuf_prepend ?n (memcpy h (IOBuf_headroom h - ?n) buf)"
  have d: "data ?h' = buf @ data h" if le: "?n \<le> IOBuf_headroom h"
  proof -
    from assms(2) le have b: "dataOff h \<le> length (storage h)" "?n \<le> dataOff h"
      by (simp_all add: wf_buf_def IOBuf_headroom_def)
    then have "drop (dataOff h - ?n) (storage ?h') = buf @ drop (dataOff h) (storage h)"
      by (simp add: IOBuf_prepend_def memcpy_def IOBuf_headroom_def)
    then show ?thesis
      by (simp add: data_def IOBuf_prepend_def memcpy_def IOBuf_headroom_def add.commute)
  qed
  show ?thesis
    using assms(1) d
    by (auto simp: prepend_def Let_def IOBuf_headroom_def IOBuf_length_def IOBuf_prepend_def
        memcpy_def)
qed

text \<open>
  C2. \<^verbatim>\<open>prepend(buf, n)\<close> on an empty chain: the function reads
  \<^verbatim>\<open>head_->headroom()\<close> before it tests \<^verbatim>\<open>head_\<close>, so the call dereferences the null
  pointer and does not fail with the capacity error, for \<open>n = 2\<close> and for \<open>n = 0\<close> alike.
\<close>

theorem prepend_empty_chain_null_dereference:
  "fst (prepend [1, 2] (IOBufQueue_new True)) = Inl Null_dereference \<and>
   fst (prepend [] (IOBufQueue_new True)) = Inl Null_dereference \<and>
   fst (prepend [1, 2] (IOBufQueue_new True)) \<noteq> Inl Overflow_error"
  by (simp add: prepend_def IOBufQueue_new_def)

section \<open>Appending raw bytes\<close>

lemma memcpy_nothing: "IOBuf_append 0 (memcpy t (writableTail t) []) = t"
  by (simp add: IOBuf_append_def memcpy_def)

lemma chain_data_butlast_last:
  "c \<noteq> [] \<Longrightarrow> chain_data (butlast c @ [t]) = chain_data (butlast c) @ data t"
  "c \<noteq> [] \<Longrightarrow> chain_data c = chain_data (butlast c) @ data (last c)"
proof -
  show "chain_data (butlast c @ [t]) = chain_data (butlast c) @ data t"
    by (simp add: chain_data_append chain_data_Cons chain_data_Nil)
  assume "c \<noteq> []"
  then have "c = butlast c @ [last c]" by simp
  then have "chain_data c = chain_data (butlast c @ [last c])" by simp
  then show "chain_data c = chain_data (butlast c) @ data (last c)"
    by (simp add: chain_data_append chain_data_Cons chain_data_Nil)
qed

lemma create_props: "wf_buf (create n)" "data (create n) = []" "capacity (create n) = n"
  "\<not> isSharedOne (create n)" "IOBuf_tailroom (create n) = n" "dataOff (create n) = 0"
  "len (create n) = 0" "writableTail (create n) = 0"
  by (simp_all add: create_def wf_buf_def data_def capacity_def isSharedOne_def IOBuf_tailroom_def
      writableTail_def)

lemma append_grow_cases:
  "(head q \<noteq> [] \<and> \<not> isSharedOne (last (head q)) \<and> IOBuf_tailroom (last (head q)) \<noteq> 0 \<and>
      append_grow k n q = q) \<or>
   (\<not> (head q \<noteq> [] \<and> \<not> isSharedOne (last (head q)) \<and> IOBuf_tailroom (last (head q)) \<noteq> 0) \<and>
      append_grow k n q = q\<lparr>head := head q @ [create (max MIN_ALLOC_SIZE (min n MAX_ALLOC_SIZE))]\<rparr>)"
  by (auto simp: append_grow_def appendToChain_nopack)

lemma alloc_sizes_0: "alloc_sizes 0 = []"
  by (subst alloc_sizes.simps) simp

lemma alloc_sizes_pos:
  "0 < r \<Longrightarrow> alloc_sizes r = max MIN_ALLOC_SIZE (min r MAX_ALLOC_SIZE) #
           alloc_sizes (r - min r (max MIN_ALLOC_SIZE (min r MAX_ALLOC_SIZE)))"
  by (subst alloc_sizes.simps) simp

lemma append_loop_spec:
  "list_all wf_buf (head q) \<Longrightarrow>
   \<exists>news. head (append_loop k src q) =
       (if head q = [] then []
        else butlast (head q) @
             [IOBuf_append (tail_reuse (head q) (length src))
                (memcpy (last (head q)) (writableTail (last (head q)))
                   (take (tail_reuse (head q) (length src)) src))]) @ news \<and>
     map capacity news = alloc_sizes (length src - tail_reuse (head q) (length src)) \<and>
     chain_data news = drop (tail_reuse (head q) (length src)) src \<and>
     list_all (\<lambda>b. wf_buf b \<and> \<not> isSharedOne b) news \<and>
     chainLength (append_loop k src q) = chainLength q + of_nat (length src) \<and>
     cacheChainLength (append_loop k src q) = cacheChainLength q"
proof (induction k src q rule: append_loop.induct)
  case (1 k src q)
  note wfh = "1.prems"
  show ?case
  proof (cases "length src = 0")
    case True
    then have e0: "src = []" by simp
    then have "append_loop k src q = q" by (subst append_loop.simps) simp
    note e = this e0
    have "tail_reuse (head q) 0 = 0" by (simp add: tail_reuse_def)
    with e show ?thesis
      by (intro exI [of _ "[]"]) (simp add: memcpy_nothing alloc_sizes_0 chain_data_Nil)
  next
    case ne: False
    define n where "n = length src"
    from ne have npos: "0 < n" by (simp add: n_def)
    define q1 where "q1 = append_grow k (length src) q"
    define t where "t = last (head q1)"
    define cl where "cl = min (length src) (IOBuf_tailroom t)"
    define t2 where "t2 = IOBuf_append cl (memcpy t (writableTail t) (take cl src))"
    define q2 where "q2 = q1\<lparr>head := butlast (head q1) @ [t2],
                           chainLength := chainLength q1 + of_nat cl\<rparr>"
    have step: "append_loop k src q = append_loop k (drop cl src) q2"
      using ne by (subst append_loop.simps) (simp add: Let_def q1_def t_def cl_def t2_def q2_def)
    have cll: "cl \<le> length src" "cl \<le> IOBuf_tailroom t" by (simp_all add: cl_def)
    then have ltk: "length (take cl src) = cl" by simp
    \<comment> \<open>the chain after the allocation step\<close>
    have q1p: "list_all wf_buf (head q1) \<and> head q1 \<noteq> [] \<and> \<not> isSharedOne t \<and> 0 < IOBuf_tailroom t
        \<and> chainLength q1 = chainLength q \<and> cacheChainLength q1 = cacheChainLength q"
      using append_grow_cases [of q k "length src"] wfh
      by (auto simp: q1_def t_def create_props MIN_ALLOC_SIZE_def)
    then have wt: "wf_buf t" by (simp add: t_def list_all_iff)
    from q1p cll npos have clpos: "0 < cl" by (simp add: cl_def n_def)
    have fit: "length (take cl src) \<le> IOBuf_tailroom t" using cll ltk by simp
    note m = memcpy_tail [OF wt fit, unfolded ltk, folded t2_def]
    have w2: "list_all wf_buf (head q2)"
      using q1p m(1) by (simp add: q2_def list_all_iff) (meson in_set_butlastD)
    have tr2: "tail_reuse (head q2) (length (drop cl src)) = 0"
    proof -
      have "min (length src - cl) (IOBuf_tailroom t - cl) = 0"
        unfolding cl_def by arith
      with m(7) show ?thesis by (simp add: tail_reuse_def q2_def)
    qed
    from "1.IH" [OF ne q1_def t_def cl_def, folded t2_def, folded q2_def, OF w2]
    obtain news where
      h: "head (append_loop k (drop cl src) q2) =
            butlast (head q2) @
            [IOBuf_append 0 (memcpy (last (head q2)) (writableTail (last (head q2))) [])] @ news"
      and mc: "map capacity news = alloc_sizes (length src - cl)"
      and cd: "chain_data news = drop cl src"
      and la: "list_all (\<lambda>b. wf_buf b \<and> \<not> isSharedOne b) news"
      and ch: "chainLength (append_loop k (drop cl src) q2) = chainLength q2 + of_nat (length src - cl)"
      and cc: "cacheChainLength (append_loop k (drop cl src) q2) = cacheChainLength q2"
      unfolding tr2 by (auto simp: q2_def)
    from h have h': "head (append_loop k src q) = butlast (head q1) @ [t2] @ news"
      by (simp add: step memcpy_nothing q2_def)
    from cll have "(of_nat cl :: 64 word) + of_nat (length src - cl) = of_nat (length src)"
      by (simp flip: of_nat_add)
    with ch q1p have ch': "chainLength (append_loop k src q) = chainLength q + of_nat (length src)"
      by (simp add: step q2_def add.assoc)
    from cc q1p have cc': "cacheChainLength (append_loop k src q) = cacheChainLength q"
      by (simp add: step q2_def)
    from append_grow_cases [of q k "length src"]
    show ?thesis
    proof (elim disjE conjE)
      assume u: "head q \<noteq> []" "\<not> isSharedOne (last (head q))"
        "IOBuf_tailroom (last (head q)) \<noteq> 0" and g: "append_grow k (length src) q = q"
      from g have e: "q1 = q" by (simp add: q1_def)
      from u e have r0: "tail_reuse (head q) (length src) = cl"
        by (simp add: tail_reuse_def cl_def t_def)
      have h'': "head (append_loop k src q) = butlast (head q) @
          [IOBuf_append cl (memcpy (last (head q)) (writableTail (last (head q))) (take cl src))]
          @ news"
        using h' by (simp add: t2_def t_def e)
      show ?thesis
        apply (rule exI [of _ news])
        using h'' mc cd la ch' cc' u(1) by (simp add: r0)
    next
      assume u: "\<not> (head q \<noteq> [] \<and> \<not> isSharedOne (last (head q)) \<and>
          IOBuf_tailroom (last (head q)) \<noteq> 0)"
        and g: "append_grow k (length src) q =
            q\<lparr>head := head q @ [create (max MIN_ALLOC_SIZE (min (length src) MAX_ALLOC_SIZE))]\<rparr>"
      let ?c = "max MIN_ALLOC_SIZE (min (length src) MAX_ALLOC_SIZE)"
      from g have e: "head q1 = head q @ [create ?c]" "t = create ?c"
        by (simp_all add: q1_def t_def)
      from u have r0: "tail_reuse (head q) (length src) = 0"
        by (auto simp: tail_reuse_def)
      from e have clc: "cl = min (length src) ?c" by (simp add: cl_def create_props)
      have a1: "head (append_loop k src q) =
          (if head q = [] then []
           else butlast (head q) @
             [IOBuf_append 0 (memcpy (last (head q)) (writableTail (last (head q))) (take 0 src))])
          @ (t2 # news)"
        using h' e by (simp add: memcpy_nothing)
      have a2: "map capacity (t2 # news) = alloc_sizes (length src)"
        using mc m(3) e(2) clc alloc_sizes_pos [of "length src"] ne
        by (simp add: create_props)
      have a3: "chain_data (t2 # news) = src"
        using cd m(2) e(2) by (simp add: chain_data_Cons create_props)
      have a4: "list_all (\<lambda>b. wf_buf b \<and> \<not> isSharedOne b) (t2 # news)"
        using la m(1) m(6) q1p by (simp add: isSharedOne_def)
      show ?thesis
        apply (rule exI [of _ "t2 # news"])
        using a1 a2 a3 a4 ch' cc' by (simp add: r0)
    qed
  qed
qed

lemma tail_reuse_le: "tail_reuse c n \<le> n" "c \<noteq> [] \<Longrightarrow> tail_reuse c n \<le> IOBuf_tailroom (last c)"
  by (simp_all add: tail_reuse_def)

lemma append_loop_content:
  assumes "list_all wf_buf (head q)"
  shows "list_all wf_buf (head (append_loop k src q)) \<and>
         chain_data (head (append_loop k src q)) = chain_data (head q) @ src"
proof -
  let ?r = "tail_reuse (head q) (length src)"
  let ?t = "last (head q)"
  let ?t' = "IOBuf_append ?r (memcpy ?t (writableTail ?t) (take ?r src))"
  from append_loop_spec [OF assms, of k src] obtain news where
    h: "head (append_loop k src q) = (if head q = [] then [] else butlast (head q) @ [?t']) @ news"
    and cd: "chain_data news = drop ?r src"
    and la: "list_all (\<lambda>b. wf_buf b \<and> \<not> isSharedOne b) news"
    by blast
  from la have wn: "list_all wf_buf news" by (simp add: list_all_iff)
  show ?thesis
  proof (cases "head q = []")
    case True
    then have "?r = 0" by (simp add: tail_reuse_def)
    with True h cd wn show ?thesis by (simp add: chain_data_Nil)
  next
    case False
    with assms have wt: "wf_buf ?t" by (simp add: list_all_iff)
    have l: "length (take ?r src) = ?r" using tail_reuse_le(1) [of "head q" "length src"] by simp
    have fit: "length (take ?r src) \<le> IOBuf_tailroom ?t"
      using tail_reuse_le(2) [OF False, of "length src"] l by simp
    note m = memcpy_tail [OF wt fit, unfolded l]
    from assms have wb: "list_all wf_buf (butlast (head q))"
      by (simp add: list_all_iff) (meson in_set_butlastD)
    from False h have h': "head (append_loop k src q) = butlast (head q) @ [?t'] @ news" by simp
    have "chain_data (head (append_loop k src q))
        = chain_data (butlast (head q)) @ data ?t @ take ?r src @ drop ?r src"
      by (simp add: h' chain_data_append chain_data_Cons chain_data_Nil m(2) cd)
    also have "\<dots> = chain_data (head q) @ src"
      using chain_data_butlast_last(2) [OF False] by simp
    finally have c: "chain_data (head (append_loop k src q)) = chain_data (head q) @ src" .
    from h' wb m(1) wn have "list_all wf_buf (head (append_loop k src q))" by simp
    with c show ?thesis by simp
  qed
qed

lemma length_ok_add:
  assumes "length_ok q1" "list_all wf_buf (head q1)" "list_all wf_buf (head q2)"
    "cacheChainLength q2 = cacheChainLength q1"
    "chainLength q2 = chainLength q1 + of_nat m"
    "length (chain_data (head q2)) = length (chain_data (head q1)) + m"
  shows "length_ok q2"
proof -
  have l1: "computeChainDataLength (head q1) = length (chain_data (head q1))"
    using chain_data_length [OF assms(2)] by simp
  have l2: "computeChainDataLength (head q2) = length (chain_data (head q1)) + m"
    using chain_data_length [OF assms(3)] assms(6) by simp
  with assms(1,4,5) l1 show ?thesis
    by (simp add: length_ok_def)
qed

text \<open>
  C8. On a well-formed queue \<^verbatim>\<open>append(buf, len)\<close> returns normally and places all the
  bytes: the content grows by exactly \<open>buf\<close> and the total length by \<open>length buf\<close>. With
  \<open>q1\<close> the queue once the lease is committed, the chain it leaves is the chain of \<open>q1\<close>
  with the tail extended by the first \<open>tail_reuse\<close> bytes of \<open>buf\<close> (as many as find
  room in an unshared tail, none otherwise), followed by new unshared nodes that hold the
  remaining bytes in order and whose sizes follow the allocation rule
  \<open>clamp(remaining, 2000, 8000)\<close> of \<open>alloc_sizes\<close>.
\<close>

theorem append_bytes_places_all:
  assumes "wf q"
  shows "\<exists>q1. flushCache q = Inr q1 \<and>
           fst (append_bytes k buf q) = Inr () \<and>
           content (snd (append_bytes k buf q)) = content q @ buf \<and>
           totalLength (snd (append_bytes k buf q)) = totalLength q + of_nat (length buf) \<and>
           wf (snd (append_bytes k buf q)) \<and>
           (\<exists>news. head (snd (append_bytes k buf q)) =
               (if head q1 = [] then []
                else butlast (head q1) @
                     [IOBuf_append (tail_reuse (head q1) (length buf))
                        (memcpy (last (head q1)) (writableTail (last (head q1)))
                           (take (tail_reuse (head q1) (length buf)) buf))]) @ news \<and>
               map capacity news = alloc_sizes (length buf - tail_reuse (head q1) (length buf)) \<and>
               chain_data news = drop (tail_reuse (head q1) (length buf)) buf \<and>
               list_all (\<lambda>b. \<not> isSharedOne b) news)"
proof -
  let ?body = "\<lambda>q. (Inr () :: error + unit, append_loop k buf q)"
  from flushCache_ok [OF assms] obtain q1 where f: "flushCache q = Inr q1"
    and p: "list_all wf_buf (head q1)" "length_ok q1" "chain_data (head q1) = content q"
    by blast
  let ?q2 = "append_loop k buf q1"
  from f have run: "append_bytes k buf q = (Inr (), updateWritableTailCache ?q2)"
    by (simp add: append_bytes_def updateGuard_def)
  from append_loop_content [OF p(1), of k buf]
  have w2: "list_all wf_buf (head ?q2)" and c2: "chain_data (head ?q2) = content q @ buf"
    by (simp_all add: p(3))
  from append_loop_spec [OF p(1), of k buf] obtain news where
    h: "head ?q2 = (if head q1 = [] then []
                else butlast (head q1) @
                     [IOBuf_append (tail_reuse (head q1) (length buf))
                        (memcpy (last (head q1)) (writableTail (last (head q1)))
                           (take (tail_reuse (head q1) (length buf)) buf))]) @ news"
    and mc: "map capacity news = alloc_sizes (length buf - tail_reuse (head q1) (length buf))"
    and cd: "chain_data news = drop (tail_reuse (head q1) (length buf)) buf"
    and la: "list_all (\<lambda>b. wf_buf b \<and> \<not> isSharedOne b) news"
    and ch: "chainLength ?q2 = chainLength q1 + of_nat (length buf)"
    and cc: "cacheChainLength ?q2 = cacheChainLength q1"
    by blast
  have lk2: "length_ok ?q2"
    by (rule length_ok_add [OF p(2) p(1) w2 cc ch]) (simp add: c2 p(3))
  note ge = guard_exit [OF w2 lk2]
  from la have la': "list_all (\<lambda>b. \<not> isSharedOne b) news" by (simp add: list_all_iff)
  have t: "totalLength (updateWritableTailCache ?q2) = totalLength q + of_nat (length buf)"
    using ge(3) c2 totalLength_content [OF assms] by simp
  have e: "fst (append_bytes k buf q) = Inr ()"
    "snd (append_bytes k buf q) = updateWritableTailCache ?q2"
    using run by simp_all
  have s: "\<exists>news. head (snd (append_bytes k buf q)) =
               (if head q1 = [] then []
                else butlast (head q1) @
                     [IOBuf_append (tail_reuse (head q1) (length buf))
                        (memcpy (last (head q1)) (writableTail (last (head q1)))
                           (take (tail_reuse (head q1) (length buf)) buf))]) @ news \<and>
               map capacity news = alloc_sizes (length buf - tail_reuse (head q1) (length buf)) \<and>
               chain_data news = drop (tail_reuse (head q1) (length buf)) buf \<and>
               list_all (\<lambda>b. \<not> isSharedOne b) news"
    unfolding e(2) ge(4) using h mc cd la' by blast
  have "content (snd (append_bytes k buf q)) = content q @ buf"
    unfolding e(2) using ge(2) c2 by simp
  moreover have "totalLength (snd (append_bytes k buf q)) = totalLength q + of_nat (length buf)"
    unfolding e(2) by (rule t)
  moreover have "wf (snd (append_bytes k buf q))" unfolding e(2) by (rule ge(1))
  ultimately show ?thesis using f e(1) s by blast
qed

theorem append_bytes_places_all_witness:
  "wf ex_queue \<and> fst (append_bytes 4096 [9, 9, 9] ex_queue) = Inr () \<and>
   content (snd (append_bytes 4096 [9, 9, 9] ex_queue)) = [1, 2, 3, 9, 9, 9]"
proof -
  from append_bytes_places_all [OF ex_queue_wf, of 4096 "[9, 9, 9]"] ex_queue_wf
  show ?thesis by (auto simp: ex_queue_content)
qed

section \<open>The write lease and serialisation\<close>

lemma wf_lease_cases:
  assumes "wf q"
  obtains (writable) f where "head q \<noteq> []" "\<not> isSharedOne (last (head q))"
      "cachedRange q = (Some f, Some (capacity (last (head q))))"
      "tailStart q = Some (writableTail (last (head q)))"
      "writableTail (last (head q)) \<le> f" "f \<le> capacity (last (head q))"
  | (null) "head q = [] \<or> isSharedOne (last (head q))" "tailStart q = None"
      "cachedRange q = (None, None)"
proof (cases "head q \<noteq> [] \<and> \<not> isSharedOne (last (head q))")
  case True
  with assms have lo: "(case cachedRange q of
           (Some f, Some e) \<Rightarrow>
              tailStart q = Some (writableTail (last (head q))) \<and>
              writableTail (last (head q)) \<le> f \<and> f \<le> e \<and> e = capacity (last (head q))
         | _ \<Rightarrow> False)"
    by (simp add: wf_def lease_ok_def)
  obtain a b where ab: "cachedRange q = (a, b)" by (cases "cachedRange q")
  from lo ab obtain f where a: "a = Some f" by (cases a) simp_all
  from lo ab a obtain e where b: "b = Some e" by (cases b) simp_all
  from lo ab a b True show ?thesis by (intro writable [of f]) simp_all
next
  case False
  with assms have "tailStart q = None \<and> cachedRange q = (None, None)"
    by (auto simp: wf_def lease_ok_def)
  with False show ?thesis by (intro null) auto
qed

lemma memcpy_lease:
  assumes "wf_buf t" "writableTail t \<le> f" "f + length bs \<le> capacity t"
  shows "wf_buf (memcpy t f bs)" "data (memcpy t f bs) = data t"
    "capacity (memcpy t f bs) = capacity t" "writableTail (memcpy t f bs) = writableTail t"
    "isSharedOne (memcpy t f bs) = isSharedOne t" "len (memcpy t f bs) = len t"
    "take (f + length bs - writableTail t) (drop (writableTail t) (storage (memcpy t f bs)))
       = take (f - writableTail t) (drop (writableTail t) (storage t)) @ bs"
proof -
  from assms(3) have b: "f + length bs \<le> length (storage t)" by (simp add: capacity_def)
  then have l: "length (storage (memcpy t f bs)) = length (storage t)"
    by (simp add: memcpy_def)
  then show "capacity (memcpy t f bs) = capacity t" by (simp add: capacity_def)
  show "writableTail (memcpy t f bs) = writableTail t"
    "isSharedOne (memcpy t f bs) = isSharedOne t" "len (memcpy t f bs) = len t"
    by (simp_all add: memcpy_def writableTail_def isSharedOne_def)
  from assms(1) l show "wf_buf (memcpy t f bs)" by (simp add: wf_buf_def memcpy_def)
  from assms(2) b have "take (len t) (drop (dataOff t) (take f (storage t) @ bs @
        drop (f + length bs) (storage t))) = take (len t) (drop (dataOff t) (storage t))"
    by (simp add: writableTail_def drop_take)
  then show "data (memcpy t f bs) = data t" by (simp add: data_def memcpy_def)
  from assms(2) b
  have "drop (writableTail t) (storage (memcpy t f bs)) =
      take (f - writableTail t) (drop (writableTail t) (storage t)) @ bs @
        drop (f + length bs) (storage t)"
    by (simp add: memcpy_def drop_take)
  moreover from assms(2) b
  have "length (take (f - writableTail t) (drop (writableTail t) (storage t))) = f - writableTail t"
    by simp
  moreover from assms(2) have "f + length bs - writableTail t = (f - writableTail t) + length bs"
    by simp
  ultimately show "take (f + length bs - writableTail t)
      (drop (writableTail t) (storage (memcpy t f bs)))
       = take (f - writableTail t) (drop (writableTail t) (storage t)) @ bs"
    by simp
qed

lemma write_lease_fast:
  assumes "wf q" "queue_writableTail q \<noteq> None" "length bs \<le> queue_tailroom q"
  shows "fst (write_lease k nas bs q) = Inr () \<and> wf (snd (write_lease k nas bs q)) \<and>
         content (snd (write_lease k nas bs q)) = content q @ bs"
proof -
  from assms(1) show ?thesis
  proof (cases rule: wf_lease_cases)
    case null
    with assms(2) show ?thesis by (simp add: queue_writableTail_def)
  next
    case (writable f)
    let ?t = "last (head q)"
    let ?n = "length bs"
    from writable(3) assms(3) writable(6) have room: "f + ?n \<le> capacity ?t"
      by (simp add: queue_tailroom_def ptr_diff_def)
    from assms(1) writable(1) have wt: "wf_buf ?t" by (simp add: wf_def list_all_iff)
    note m = memcpy_lease [OF wt writable(5) room]
    let ?q' = "q\<lparr>head := butlast (head q) @ [memcpy ?t f bs],
                cachedRange := (Some (f + ?n), Some (capacity ?t))\<rparr>"
    obtain h rest where hq: "head q = h # rest" using writable(1) by (cases "head q") auto
    have run: "write_lease k nas bs q = (Inr (), ?q')"
      using assms(2,3) writable(3) hq
      by (simp add: write_lease_def preallocate_def queue_writableTail_def postallocate_def
          ptr_add_def)
    from assms(1) have wb: "list_all wf_buf (butlast (head q))"
      by (simp add: wf_def list_all_iff) (meson in_set_butlastD)
    have cdq: "chain_data (head ?q') = chain_data (head q)"
      using chain_data_butlast_last [OF writable(1)] m(2) by simp
    have w1: "list_all wf_buf (head ?q')" using wb m(1) by simp
    have w2: "lease_ok ?q'"
      using writable m room by (simp add: lease_ok_def)
    have "computeChainDataLength (head ?q') = computeChainDataLength (head q)"
      using chain_data_length [OF w1] chain_data_length [of "head q"] assms(1) cdq
      by (simp add: wf_def)
    with assms(1) have w3: "length_ok ?q'" by (simp add: wf_def length_ok_def)
    have lb: "lease_bytes ?q' = lease_bytes q @ bs"
      using writable(3,4) m(7) by (simp add: lease_bytes_def pending_def ptr_diff_def)
    from run w1 w2 w3 cdq lb show ?thesis by (simp add: wf_def content_def)
  qed
qed

lemma write_lease_slow:
  assumes "wf q" "\<not> (queue_writableTail q \<noteq> None \<and> length bs \<le> queue_tailroom q)"
  shows "fst (write_lease k nas bs q) = Inr () \<and> wf (snd (write_lease k nas bs q)) \<and>
         content (snd (write_lease k nas bs q)) = content q @ bs"
proof -
  from flushCache_ok [OF assms(1)] obtain q1 where f: "flushCache q = Inr q1"
    and p: "list_all wf_buf (head q1)" "length_ok q1" "chain_data (head q1) = content q"
    by blast
  let ?n = "length bs"
  let ?c = "max ?n nas"
  let ?nb = "memcpy (create ?c) 0 bs"
  let ?q' = "q1\<lparr>tailStart := Some 0, cachedRange := (Some ?n, Some ?c),
               head := head q1 @ [?nb]\<rparr>"
  have run: "write_lease k nas bs q = (Inr (), ?q')"
    using assms(2) f
    by (cases "head q1")
      (auto simp: write_lease_def preallocate_def preallocateSlow_def Let_def create_props
        appendToChain_nopack queue_writableTail_def postallocate_def ptr_add_def)
  have room: "0 + ?n \<le> capacity (create ?c)" by (simp add: create_props)
  have wt0: "writableTail (create ?c) \<le> 0" by (simp add: create_props)
  note m = memcpy_lease [OF create_props(1) wt0 room]
  have w1: "list_all wf_buf (head ?q')" using p(1) m(1) by simp
  have w2: "lease_ok ?q'"
    using m by (simp add: lease_ok_def create_props)
  have cdq: "chain_data (head ?q') = content q"
    using p(3) m(2) by (simp add: chain_data_append chain_data_Cons chain_data_Nil create_props)
  have "computeChainDataLength (head ?q') = computeChainDataLength (head q1)"
    using chain_data_length [OF w1] chain_data_length [OF p(1)] cdq p(3) by simp
  with p(2) have w3: "length_ok ?q'" by (simp add: length_ok_def)
  have lb: "lease_bytes ?q' = bs"
    using m(7) by (simp add: lease_bytes_def pending_def ptr_diff_def create_props)
  from run w1 w2 w3 cdq lb show ?thesis by (simp add: wf_def content_def)
qed

lemma write_lease_spec:
  assumes "wf q"
  shows "fst (write_lease k nas bs q) = Inr () \<and> wf (snd (write_lease k nas bs q)) \<and>
         content (snd (write_lease k nas bs q)) = content q @ bs"
  using write_lease_fast [OF assms] write_lease_slow [OF assms] by blast

lemma append_bytes_spec:
  assumes "wf q"
  shows "fst (append_bytes k bs q) = Inr () \<and> wf (snd (append_bytes k bs q)) \<and>
         content (snd (append_bytes k bs q)) = content q @ bs"
proof -
  from flushCache_ok [OF assms] obtain q1 where f: "flushCache q = Inr q1"
    and p: "list_all wf_buf (head q1)" "length_ok q1" "chain_data (head q1) = content q"
    by blast
  let ?q2 = "append_loop k bs q1"
  from f have run: "append_bytes k bs q = (Inr (), updateWritableTailCache ?q2)"
    by (simp add: append_bytes_def updateGuard_def)
  from append_loop_content [OF p(1), of k bs]
  have w2: "list_all wf_buf (head ?q2)" and c2: "chain_data (head ?q2) = content q @ bs"
    by (simp_all add: p(3))
  from append_loop_spec [OF p(1), of k bs]
  have ch: "chainLength ?q2 = chainLength q1 + of_nat (length bs)"
    and cc: "cacheChainLength ?q2 = cacheChainLength q1"
    by blast+
  have lk2: "length_ok ?q2"
    by (rule length_ok_add [OF p(2) p(1) w2 cc ch]) (simp add: c2 p(3))
  from guard_exit [OF w2 lk2] run c2 show ?thesis by simp
qed

lemma appendToChain_content:
  assumes "list_all wf_buf dst" "list_all wf_buf src"
  shows "list_all wf_buf (appendToChain k dst src pack) \<and>
         chain_data (appendToChain k dst src pack) = chain_data dst @ chain_data src"
proof (cases "dst = [] \<or> \<not> pack \<or> isSharedOne (last dst)")
  case True
  then have "appendToChain k dst src pack = dst @ src"
    by (auto simp: appendToChain_def packInto_def Let_def)
  with assms show ?thesis
    by (simp add: chain_data_append)
next
  case False
  then have ne: "dst \<noteq> []" and pk: "pack" and us: "\<not> isSharedOne (last dst)" by simp_all
  from assms(1) ne have wt: "wf_buf (last dst)" by (simp add: list_all_iff)
  from assms(1) have wb: "list_all wf_buf (butlast dst)"
    by (simp add: list_all_iff) (meson in_set_butlastD)
  obtain tail' rest where l: "packInto_loop k (last dst) src = (tail', rest)"
    by (cases "packInto_loop k (last dst) src")
  from packInto_loop_spec [OF wt assms(2) l] obtain consumed where
    c: "src = consumed @ rest" "data tail' = data (last dst) @ chain_data consumed" "wf_buf tail'"
    by blast
  from ne pk us l have a: "appendToChain k dst src pack = butlast dst @ [tail'] @ rest"
    by (simp add: appendToChain_def packInto_def)
  from assms(2) c(1) have wr: "list_all wf_buf rest" by simp
  have "chain_data (butlast dst @ [tail'] @ rest) =
      chain_data (butlast dst) @ data (last dst) @ chain_data consumed @ chain_data rest"
    by (simp add: chain_data_append chain_data_Cons chain_data_Nil c(2))
  also have "\<dots> = chain_data dst @ chain_data src"
    using chain_data_butlast_last(2) [OF ne] by (simp add: c(1) chain_data_append)
  finally show ?thesis using a wb c(3) wr by simp
qed

lemma content_empty_chain: "wf q \<Longrightarrow> head q = [] \<Longrightarrow> content q = [] \<and> totalLength q = 0"
proof -
  assume w: "wf q" and h: "head q = []"
  from w h have "tailStart q = None" by (cases rule: wf_lease_cases) simp_all
  with h have "content q = []" by (simp add: content_def chain_data_Nil lease_bytes_def)
  with totalLength_content [OF w] show ?thesis by simp
qed

lemma maybeReuseTail_content:
  assumes "list_all wf_buf (head q)" "i < length (head q)" "split_ok mst"
  shows "\<exists>q'. maybeReuseTail mst (head q ! i) (Some i) q = Inr q' \<and>
           list_all wf_buf (head q') \<and> chain_data (head q') = chain_data (head q) \<and>
           chainLength q' = chainLength q \<and> cacheChainLength q' = cacheChainLength q"
proof -
  let ?c = "head q"
  let ?o = "?c ! i"
  from assms(2) have ne: "?c \<noteq> []" by auto
  from assms(1,2) have wo: "wf_buf ?o" by (simp add: list_all_length)
  have dec: "?c = take i ?c @ ?o # drop (Suc i) ?c" using assms(2) by (rule id_take_nth_drop)
  have cdc: "chain_data ?c = chain_data (take i ?c) @ data ?o @ chain_data (drop (Suc i) ?c)"
    by (subst dec) (simp add: chain_data_append chain_data_Cons)
  from assms(1) have wtd: "list_all wf_buf (take i ?c)" "list_all wf_buf (drop (Suc i) ?c)"
    by (auto simp: list_all_iff dest: in_set_takeD in_set_dropD)
  have moved: "list_all wf_buf (take i ?c @ drop (Suc i) ?c @ [?o]) \<and>
      chain_data (take i ?c @ drop (Suc i) ?c @ [?o]) = chain_data ?c" if z: "IOBuf_length ?o = 0"
  proof -
    from z data_length [OF wo] have "data ?o = []" by (simp add: IOBuf_length_def)
    with cdc wtd wo show ?thesis
      by (simp add: chain_data_append chain_data_Cons chain_data_Nil)
  qed
  have splitc: "list_all wf_buf (?c[i := b'] @ [t]) \<and>
      chain_data (?c[i := b'] @ [t]) = chain_data ?c" if s: "mst ?o = Some (b', t)" for b' t
  proof -
    from assms(3) s wo have p: "wf_buf b'" "data b' = data ?o" "wf_buf t" "data t = []"
      by (auto simp: split_ok_def)
    have u: "?c[i := b'] = take i ?c @ b' # drop (Suc i) ?c"
      using assms(2) by (rule upd_conv_take_nth_drop)
    from p wtd cdc show ?thesis
      by (simp add: u chain_data_append chain_data_Cons chain_data_Nil)
  qed
  show ?thesis
    using ne assms(1) moved splitc
    by (auto simp: maybeReuseTail_def split: option.splits)
qed

lemma appendToChain_length:
  "dst \<noteq> [] \<Longrightarrow> length dst \<le> length (appendToChain k dst src pack)"
  by (auto simp: appendToChain_def Let_def split: prod.splits)

lemma append_chain_spec:
  assumes "wf q" "list_all wf_buf buf" "split_ok mst"
  shows "fst (append_chain k mst buf pack reuse q) = Inr () \<and>
         wf (snd (append_chain k mst buf pack reuse q)) \<and>
         content (snd (append_chain k mst buf pack reuse q)) = content q @ chain_data buf"
proof (cases "buf = []")
  case True
  with assms(1) show ?thesis by (simp add: append_chain_def chain_data_Nil)
next
  case False
  from flushCache_ok [OF assms(1)] obtain q1 where f: "flushCache q = Inr q1"
    and p: "list_all wf_buf (head q1)" "length_ok q1" "chain_data (head q1) = content q"
    by blast
  let ?q2 = "if cacheChainLength q1
             then q1\<lparr>chainLength := chainLength q1 + of_nat (computeChainDataLength buf)\<rparr>
             else q1"
  let ?q3 = "?q2\<lparr>head := appendToChain k (head ?q2) buf pack\<rparr>"
  have h2: "head ?q2 = head q1" by simp
  from appendToChain_content [OF p(1) assms(2), of k pack]
  have w3: "list_all wf_buf (head ?q3)"
    and c3: "chain_data (head ?q3) = content q @ chain_data buf"
    by (simp_all add: p(3))
  have l1: "computeChainDataLength (head q1) = length (content q)"
    using chain_data_length [OF p(1)] p(3) by simp
  have l2: "computeChainDataLength buf = length (chain_data buf)"
    using chain_data_length [OF assms(2)] by simp
  have l3: "computeChainDataLength (head ?q3) = length (content q) + length (chain_data buf)"
    using chain_data_length [OF w3] c3 by simp
  have lk3: "length_ok ?q3"
    using p(2) l1 l2 l3 by (simp add: length_ok_def)
  show ?thesis
  proof (cases "reuse \<and> head q1 \<noteq> []")
    case noreuse: False
    with False f have run: "append_chain k mst buf pack reuse q
        = (Inr (), updateWritableTailCache ?q3)"
      by (auto simp: append_chain_def Let_def)
    from guard_exit [OF w3 lk3] c3 show ?thesis unfolding run by simp
  next
    case True
    let ?i = "length (head q1) - 1"
    from True appendToChain_length [of "head q1" k buf pack]
    have il: "?i < length (head ?q3)" by (cases "head q1") auto
    from maybeReuseTail_content [OF w3 il assms(3)] obtain q4 where
      m: "maybeReuseTail mst (head ?q3 ! ?i) (Some ?i) ?q3 = Inr q4"
      and w4: "list_all wf_buf (head q4)"
      and c4: "chain_data (head q4) = chain_data (head ?q3)"
      and k4: "chainLength q4 = chainLength ?q3" "cacheChainLength q4 = cacheChainLength ?q3"
      by blast
    have "computeChainDataLength (head q4) = computeChainDataLength (head ?q3)"
      using chain_data_length [OF w4] chain_data_length [OF w3] c4 by simp
    with lk3 k4 have lk4: "length_ok q4" by (simp add: length_ok_def)
    from True False f m have run: "append_chain k mst buf pack reuse q
        = (Inr (), updateWritableTailCache q4)"
      by (simp add: append_chain_def Let_def)
    from guard_exit [OF w4 lk4] c4 c3 show ?thesis unfolding run by simp
  qed
qed

lemma run_appends_spec:
  "wf q \<Longrightarrow> list_all op_ok ops \<Longrightarrow> split_ok mst \<Longrightarrow>
     fst (run_appends k mst ops q) = Inr () \<and> wf (snd (run_appends k mst ops q)) \<and>
     content (snd (run_appends k mst ops q)) = content q @ concat (map op_bytes ops)"
proof (induction ops arbitrary: q)
  case Nil
  then show ?case by simp
next
  case (Cons x xs)
  obtain r q' where a: "apply_op k mst x q = (r, q')" by (cases "apply_op k mst x q")
  have "fst (apply_op k mst x q) = Inr () \<and> wf (snd (apply_op k mst x q)) \<and>
        content (snd (apply_op k mst x q)) = content q @ op_bytes x"
  proof (cases x)
    case (Append bs)
    with append_bytes_spec [OF Cons.prems(1)] show ?thesis by simp
  next
    case (Written n bs)
    with write_lease_spec [OF Cons.prems(1)] show ?thesis by simp
  next
    case (Chain buf pack reuse)
    with Cons.prems(2) have "list_all wf_buf buf" by simp
    from append_chain_spec [OF Cons.prems(1) this Cons.prems(3)] Chain show ?thesis by simp
  qed
  with a have r: "r = Inr ()" and w: "wf q'" and c: "content q' = content q @ op_bytes x"
    by simp_all
  from a r have "run_appends k mst (x # xs) q = run_appends k mst xs q'" by simp
  moreover from Cons.prems(2) have "list_all op_ok xs" by simp
  ultimately show ?case using Cons.IH [OF w _ Cons.prems(3)] c by simp
qed

lemma appendToString_content:
  assumes "wf q" shows "appendToString q out = Inr (out @ content q)"
  using assms
proof (cases rule: wf_lease_cases)
  case (writable f)
  then show ?thesis
    by (auto simp: appendToString_def content_def lease_bytes_def pending_def chain_data_def
        ptr_diff_def Let_def)
next
  case null
  then show ?thesis
    by (auto simp: appendToString_def content_def lease_bytes_def pending_def chain_data_def
        ptr_diff_def Let_def)
qed

lemma IOBufQueue_new_wf: "wf (IOBufQueue_new c)" "content (IOBufQueue_new c) = []"
  by (simp_all add: wf_def IOBufQueue_new_def lease_ok_def length_ok_def computeChainDataLength_def
      content_def chain_data_def lease_bytes_def)

text \<open>
  C3. Starting from a new queue (with or without length caching), after any sequence of
  appends, each one raw bytes given to \<^verbatim>\<open>append\<close>, bytes written into the lease and left
  uncommitted, or an owned chain of well-formed nodes appended with or without packing and
  tail reuse, every operation has returned normally, \<^verbatim>\<open>appendToString\<close> adds to the sink
  exactly the concatenation of the appended byte sequences, and the total length is the
  sum of their lengths.
\<close>

theorem appends_serialize_to_concatenation:
  assumes "list_all op_ok ops" "split_ok mst"
  shows "fst (run_appends k mst ops (IOBufQueue_new c)) = Inr () \<and>
   appendToString (snd (run_appends k mst ops (IOBufQueue_new c))) out =
      Inr (out @ concat (map op_bytes ops)) \<and>
   totalLength (snd (run_appends k mst ops (IOBufQueue_new c))) =
      of_nat (length (concat (map op_bytes ops)))"
proof -
  from run_appends_spec [OF IOBufQueue_new_wf(1) assms, of k c]
  have r: "fst (run_appends k mst ops (IOBufQueue_new c)) = Inr ()"
    and w: "wf (snd (run_appends k mst ops (IOBufQueue_new c)))"
    and ct: "content (snd (run_appends k mst ops (IOBufQueue_new c))) = concat (map op_bytes ops)"
    by (simp_all add: IOBufQueue_new_wf(2))
  from r appendToString_content [OF w, of out] totalLength_content [OF w] ct
  show ?thesis by simp
qed

theorem appends_serialize_to_concatenation_witness:
  "list_all op_ok [Append [1, 2], Written 8 [3], Chain [ex_small] True True, Written 8 [4, 5]] \<and>
   split_ok (\<lambda>b. None) \<and>
   appendToString (snd (run_appends 4096 (\<lambda>b. None)
       [Append [1, 2], Written 8 [3], Chain [ex_small] True True, Written 8 [4, 5]]
       (IOBufQueue_new True))) [] = Inr [1, 2, 3, 7, 4, 5] \<and>
   totalLength (snd (run_appends 4096 (\<lambda>b. None)
       [Append [1, 2], Written 8 [3], Chain [ex_small] True True, Written 8 [4, 5]]
       (IOBufQueue_new True))) = 6"
proof -
  have o: "list_all op_ok
      [Append [1, 2], Written 8 [3], Chain [ex_small] True True, Written 8 [4, 5]]"
    by (simp add: wf_buf_def)
  have s: "split_ok (\<lambda>b. None)" by (simp add: split_ok_def)
  from appends_serialize_to_concatenation [OF o s, of 4096 True "[]"] o s
  show ?thesis by (simp add: chain_data_def data_def)
qed

section \<open>Appending another queue\<close>

lemma append_queue_moves:
  assumes "wf this" "wf other"
  shows "case append_queue k mst pack False this other of (r, this', other') \<Rightarrow>
           r = Inr () \<and> content this' = content this @ content other \<and>
           totalLength this' = totalLength this + totalLength other \<and>
           head other' = [] \<and> content other' = [] \<and> totalLength other' = 0 \<and>
           wf this' \<and> wf other'"
proof (cases "head other = []")
  case True
  with content_empty_chain [OF assms(2)] assms show ?thesis
    by (simp add: append_queue_def)
next
  case False
  from flushCache_ok [OF assms(2)] obtain o1 where fo: "flushCache other = Inr o1"
    and po: "list_all wf_buf (head o1)" "length_ok o1" "chain_data (head o1) = content other"
    by blast
  from flushCache_ok [OF assms(1)] obtain t1 where ft: "flushCache this = Inr t1"
    and pt: "list_all wf_buf (head t1)" "length_ok t1" "chain_data (head t1) = content this"
    by blast
  let ?t2 = "if cacheChainLength t1 then
                       (if cacheChainLength o1
                        then t1\<lparr>chainLength := chainLength t1 + chainLength o1\<rparr>
                        else t1\<lparr>chainLength := chainLength t1 +
                                    of_nat (computeChainDataLength (head o1))\<rparr>)
                     else t1"
  let ?t3 = "?t2\<lparr>head := appendToChain k (head ?t2) (head o1) pack\<rparr>"
  let ?o2 = "o1\<lparr>head := [], chainLength := 0\<rparr>"
  from False fo ft have run: "append_queue k mst pack False this other =
      (Inr (), updateWritableTailCache ?t3, updateWritableTailCache ?o2)"
    by (simp add: append_queue_def Let_def)
  have h2: "head ?t2 = head t1" by simp
  from appendToChain_content [OF pt(1) po(1), of k pack]
  have w3: "list_all wf_buf (head ?t3)"
    and c3: "chain_data (head ?t3) = content this @ content other"
    by (simp_all add: pt(3) po(3))
  have l1: "computeChainDataLength (head t1) = length (content this)"
    using chain_data_length [OF pt(1)] pt(3) by simp
  have l2: "computeChainDataLength (head o1) = length (content other)"
    using chain_data_length [OF po(1)] po(3) by simp
  have l3: "computeChainDataLength (head ?t3) = length (content this) + length (content other)"
    using chain_data_length [OF w3] c3 by simp
  have lk3: "length_ok ?t3"
    using pt(2) po(2) l1 l2 l3 by (simp add: length_ok_def)
  have wo: "list_all wf_buf (head ?o2)" by simp
  have lko: "length_ok ?o2" by (simp add: length_ok_def computeChainDataLength_def)
  note gt = guard_exit [OF w3 lk3]
  note go = guard_exit [OF wo lko]
  have tt: "totalLength (updateWritableTailCache ?t3) = totalLength this + totalLength other"
    using gt(3) c3 totalLength_content [OF assms(1)] totalLength_content [OF assms(2)] by simp
  have to: "totalLength (updateWritableTailCache ?o2) = 0"
    using go(3) by (simp add: chain_data_Nil)
  have co: "content (updateWritableTailCache ?o2) = []" "head (updateWritableTailCache ?o2) = []"
    using go(2,4) by (simp_all add: chain_data_Nil)
  have ct: "content (updateWritableTailCache ?t3) = content this @ content other"
    using gt(2) c3 by simp
  show ?thesis
    unfolding run using gt(1) go(1) tt to co ct by simp
qed

lemma append_queue_reuse_fails:
  assumes "wf this" "wf other" "head other \<noteq> []" "\<not> isSharedOne (last (head other))"
  shows "fst (append_queue k mst pack True this other) = Inl Null_dereference \<or>
         fst (append_queue k mst pack True this other) = Inl Use_after_free"
proof -
  from flushCache_ok [OF assms(2)] obtain o1 where fo: "flushCache other = Inr o1"
    and mo: "map isSharedOne (head o1) = map isSharedOne (head other)"
    by blast
  from flushCache_ok [OF assms(1)] obtain t1 where ft: "flushCache this = Inr t1"
    by blast
  from mo assms(3) have ne: "head o1 \<noteq> []" by auto
  from mo have "last (map isSharedOne (head o1)) = last (map isSharedOne (head other))" by simp
  with ne assms(3,4) have us: "\<not> isSharedOne (last (head o1))" by (simp add: last_map)
  from assms(3) fo ft ne us show ?thesis
    by (simp add: append_queue_def Let_def maybeReuseTail_def)
qed

lemma append_chain_tail_reuse_returns:
  "fst (append_chain 4096 (\<lambda>b. None) [ex_big] False True ex_queue) = Inr () \<and>
   fst (append_chain 4096 (\<lambda>b. None) [ex_small] True True ex_queue) = Inr ()"
  by (simp add: append_chain_def flushCache_def Let_def maybeReuseTail_def isSharedOne_def
      appendToChain_def packInto_def IOBuf_length_def IOBuf_tailroom_def capacity_def
      writableTail_def IOBuf_append_def memcpy_def data_def)

text \<open>
  C6. \<^verbatim>\<open>append(IOBufQueue& other, pack, allowTailReuse)\<close> with \<^verbatim>\<open>allowTailReuse\<close> set, on
  a source queue whose tail is unshared: the guard taken on the source queue is the one
  that is given \<^verbatim>\<open>allowTailReuse\<close>, and when it closes the chain of the source has been
  moved away, so \<^verbatim>\<open>maybeReuseTail\<close> dereferences a null \<^verbatim>\<open>head_\<close> (or, when the pack
  selector consumed the source's tail, reads a released node). The call does not return
  with the bytes moved. Without \<^verbatim>\<open>allowTailReuse\<close> the same call returns (and then it
  moves every byte, lemma \<open>append_queue_moves\<close>).
\<close>

theorem append_queue_tail_reuse_null_dereference:
  "fst (append_queue 4096 (\<lambda>b. None) False True (IOBufQueue_new True) ex_queue)
     = Inl Null_dereference \<and>
   fst (append_queue 4096 (\<lambda>b. None) True True (IOBufQueue_new False) ex_queue)
     = Inl Null_dereference \<and>
   fst (append_queue 4096 (\<lambda>b. None) True True ex_queue ex_other) = Inl Use_after_free \<and>
   fst (append_queue 4096 (\<lambda>b. None) False False (IOBufQueue_new True) ex_queue) = Inr ()"
  by (simp add: append_queue_def flushCache_def IOBufQueue_new_def Let_def maybeReuseTail_def
      isSharedOne_def appendToChain_def packInto_def IOBuf_length_def IOBuf_tailroom_def
      capacity_def writableTail_def)

end
